theory Spec2Isabelle
  imports Main "HOL-Library.Multiset" "HOL-Library.Sublist"
begin

section \<open>Requests, operations and the environment of an engine\<close>

text \<open>
  The development embeds the two streaming engines of \<^verbatim>\<open>jina/peapods/stream/base.py\<close>,
  \<^verbatim>\<open>BaseStreamer._stream_requests\<close> and \<^verbatim>\<open>BaseStreamer._stream_requests_with_prefetch\<close>.
  Both are coroutines on one asyncio event loop: between two suspension points
  (\<^verbatim>\<open>await\<close>, \<^verbatim>\<open>yield\<close>) the code runs atomically, and what runs next is chosen by
  the loop and by the outside world. Each atomic section is a function on the state of
  the engine, an execution is a list of events, and the order of the events is the
  schedule.

  A request carries the identifier that the code reads as \<^verbatim>\<open>request.request_id\<close>.
  The dispatcher \<^verbatim>\<open>_handle_request\<close> is abstract in the source; it is a parameter
  \<open>h\<close> that gives the outcome the returned future will hold. A future is numbered by
  the position of its \<^verbatim>\<open>_handle_request\<close> call, which stands for the identity of the
  Python object.
\<close>

datatype exn = KeyError nat | Raised string

datatype 'r outcome = Result 'r | Failure exn

record 'a request =
  request_id :: nat
  payload :: 'a

type_synonym 'a future = "nat \<times> 'a request"

datatype event = Pull | Complete nat | Get | Wake | Resume

text \<open>
  The part of the state both engines have: what is left of the request iterator (and the
  exception it raises once these are delivered, if it raises one), the calls of
  \<^verbatim>\<open>_handle_request\<close> in order, the futures not finished yet, the futures in the order
  they finished, the futures whose \<^verbatim>\<open>result()\<close> was read, the values handed to the
  caller, and the number of calls of \<^verbatim>\<open>_handle_end_of_iter\<close>.
\<close>

record ('a, 'r) env =
  source :: "'a request list"
  source_fault :: "exn option"
  dispatched :: "'a request list"
  in_flight :: "'a future list"
  completed :: "'a future list"
  consumed :: "'a future list"
  yielded :: "'r list"
  eoi_calls :: nat

datatype 'a fetched = Item "'a request" | StopAsyncIteration | Fault exn

text \<open>\<^verbatim>\<open>AsyncRequestsIterator.__anext__\<close>: the next request, the end, or the iterator's exception.\<close>

definition next_request :: "('a, 'r, 'z) env_scheme \<Rightarrow> 'a fetched" where
  "next_request s =
     (case source s of
        r # rs \<Rightarrow> Item r
      | [] \<Rightarrow> (case source_fault s of None \<Rightarrow> StopAsyncIteration | Some e \<Rightarrow> Fault e))"

text \<open>\<^verbatim>\<open>self._handle_request(request=request)\<close>: returns at once with a new pending future.\<close>

definition handle_request ::
  "'a request \<Rightarrow> ('a, 'r, 'z) env_scheme \<Rightarrow> 'a future \<times> ('a, 'r, 'z) env_scheme" where
  "handle_request r s =
     (let f = (length (dispatched s), r)
      in (f, s\<lparr>dispatched := dispatched s @ [r], in_flight := in_flight s @ [f]\<rparr>))"

text \<open>\<^verbatim>\<open>_handle_result\<close> returns its argument.\<close>

definition handle_result :: "'r \<Rightarrow> 'r" where
  "handle_result result = result"

text \<open>The pending future with number \<open>i\<close>, if there is one.\<close>

definition pending_future :: "nat \<Rightarrow> ('a, 'r, 'z) env_scheme \<Rightarrow> 'a future option" where
  "pending_future i s = find (\<lambda>f. fst f = i) (in_flight s)"

text \<open>The outside world finishes a pending future.\<close>

definition finish :: "'a future \<Rightarrow> ('a, 'r, 'z) env_scheme \<Rightarrow> ('a, 'r, 'z) env_scheme" where
  "finish f s = s\<lparr>in_flight := remove1 f (in_flight s), completed := completed s @ [f]\<rparr>"

section \<open>The engine without prefetching: \<^verbatim>\<open>_stream_requests\<close>\<close>

datatype producer = Running | Finished | Crashed exn

datatype 'a get_task = Pending | Done "nat \<times> 'a future"

datatype consumer = Waiting | Suspended nat | Returned | Thrown exn

text \<open>
  \<open>producer\<close> is the task made by \<^verbatim>\<open>asyncio.create_task(iterate_requests())\<close>; nothing
  awaits it, so an exception in it stays in the task. \<open>get_result_task\<close> is the task
  around \<^verbatim>\<open>result_queue.get()\<close>. \<open>consumer\<close> is the generator itself: at
  \<^verbatim>\<open>await asyncio.wait\<close>, at the \<^verbatim>\<open>yield\<close> (holding \<^verbatim>\<open>request_id\<close>), returned, or
  ended by an exception.
\<close>

record ('a, 'r) ustate = "('a, 'r) env" +
  result_queue :: "(nat \<times> 'a future) list"
  end_of_iter :: bool
  requests_to_handle :: "nat set"
  all_requests_handled :: bool
  producer :: producer
  get_result_task :: "'a get_task"
  consumer :: consumer

text \<open>
  The state when the generator first suspends at \<^verbatim>\<open>await asyncio.wait\<close>: the producer
  task is created and has not run, so \<^verbatim>\<open>all_requests_handled\<close> is not set and the test of
  line 122 creates \<^verbatim>\<open>get_result_task\<close>.
\<close>

definition start :: "'a request list \<Rightarrow> exn option \<Rightarrow> ('a, 'r) ustate" where
  "start reqs fault =
     \<lparr>source = reqs, source_fault = fault, dispatched = [], in_flight = [], completed = [],
      consumed = [], yielded = [], eoi_calls = 0,
      result_queue = [], end_of_iter = False, requests_to_handle = {},
      all_requests_handled = False, producer = Running, get_result_task = Pending,
      consumer = Waiting\<rparr>"

text \<open>
  One turn of the producer, lines 111 to 118: a request is registered and dispatched; at
  the end of the iterator \<^verbatim>\<open>_handle_end_of_iter\<close> is called and the flags are set; an
  exception of the iterator ends the task.
\<close>

definition iterate_requests :: "('a, 'r) ustate \<Rightarrow> ('a, 'r) ustate option" where
  "iterate_requests s =
     (if producer s \<noteq> Running then None
      else Some
        (case next_request s of
           Item r \<Rightarrow>
             snd (handle_request r
               (s\<lparr>source := tl (source s),
                  requests_to_handle := insert (request_id r) (requests_to_handle s)\<rparr>))
         | StopAsyncIteration \<Rightarrow>
             (let s1 = s\<lparr>eoi_calls := eoi_calls s + 1, end_of_iter := True, producer := Finished\<rparr>
              in if requests_to_handle s1 = {} then s1\<lparr>all_requests_handled := True\<rparr> else s1)
         | Fault e \<Rightarrow> s\<lparr>producer := Crashed e\<rparr>))"

text \<open>The done-callback of lines 86 to 98: it puts the pair on the queue and nothing else.\<close>

definition callback :: "'a future \<Rightarrow> ('a, 'r) ustate \<Rightarrow> ('a, 'r) ustate" where
  "callback future s =
     s\<lparr>result_queue := result_queue s @ [(request_id (snd future), future)]\<rparr>"

definition complete :: "nat \<Rightarrow> ('a, 'r) ustate \<Rightarrow> ('a, 'r) ustate option" where
  "complete i s =
     (case pending_future i s of
        None \<Rightarrow> None
      | Some f \<Rightarrow> Some (callback f (finish f s)))"

text \<open>\<^verbatim>\<open>result_queue.get()\<close> finishes once the queue has an entry.\<close>

definition queue_get :: "('a, 'r) ustate \<Rightarrow> ('a, 'r) ustate option" where
  "queue_get s =
     (case get_result_task s of
        Done e \<Rightarrow> None
      | Pending \<Rightarrow>
          (case result_queue s of
             [] \<Rightarrow> None
           | e # q \<Rightarrow> Some (s\<lparr>result_queue := q, get_result_task := Done e\<rparr>)))"

text \<open>
  The generator wakes from \<^verbatim>\<open>asyncio.wait\<close>, lines 130 to 132, when the get task is done
  or the all-handled event is set. With the get task done it reads \<^verbatim>\<open>future.result()\<close>:
  a value is yielded, an exception leaves the generator. Otherwise the loop test of
  line 125 fails and the generator returns.
\<close>

definition wake :: "('a request \<Rightarrow> 'r outcome) \<Rightarrow> ('a, 'r) ustate \<Rightarrow> ('a, 'r) ustate option" where
  "wake h s =
     (if consumer s \<noteq> Waiting then None
      else
        (case get_result_task s of
           Done (rid, future) \<Rightarrow>
             Some
               (case h (snd future) of
                  Result v \<Rightarrow>
                    s\<lparr>consumed := consumed s @ [future],
                      yielded := yielded s @ [handle_result v],
                      consumer := Suspended rid\<rparr>
                | Failure e \<Rightarrow>
                    s\<lparr>consumed := consumed s @ [future], consumer := Thrown e\<rparr>)
         | Pending \<Rightarrow>
             if all_requests_handled s then Some (s\<lparr>consumer := Returned\<rparr>) else None))"

text \<open>
  The caller asks for the next item and the generator continues after the \<^verbatim>\<open>yield\<close>,
  lines 133 to 137 and the loop test: \<^verbatim>\<open>set.remove\<close> raises \<^verbatim>\<open>KeyError\<close> for an
  absent identifier.
\<close>

definition resume :: "('a, 'r) ustate \<Rightarrow> ('a, 'r) ustate option" where
  "resume s =
     (case consumer s of
        Suspended rid \<Rightarrow>
          Some
            (if rid \<notin> requests_to_handle s then s\<lparr>consumer := Thrown (KeyError rid)\<rparr>
             else
               (let s1 = s\<lparr>requests_to_handle := requests_to_handle s - {rid}\<rparr>;
                    s2 = (if requests_to_handle s1 = {} \<and> end_of_iter s1
                          then s1\<lparr>all_requests_handled := True\<rparr>
                          else s1\<lparr>get_result_task := Pending\<rparr>)
                in if all_requests_handled s2 then s2\<lparr>consumer := Returned\<rparr>
                   else s2\<lparr>consumer := Waiting\<rparr>))
      | Waiting \<Rightarrow> None
      | Returned \<Rightarrow> None
      | Thrown e \<Rightarrow> None)"

definition step ::
  "('a request \<Rightarrow> 'r outcome) \<Rightarrow> event \<Rightarrow> ('a, 'r) ustate \<Rightarrow> ('a, 'r) ustate option" where
  "step h ev s =
     (case ev of
        Pull \<Rightarrow> iterate_requests s
      | Complete i \<Rightarrow> complete i s
      | Get \<Rightarrow> queue_get s
      | Wake \<Rightarrow> wake h s
      | Resume \<Rightarrow> resume s)"

primrec run ::
  "('a request \<Rightarrow> 'r outcome) \<Rightarrow> event list \<Rightarrow> ('a, 'r) ustate \<Rightarrow> ('a, 'r) ustate option" where
  "run h [] s = Some s"
| "run h (ev # evs) s = (case step h ev s of None \<Rightarrow> None | Some s' \<Rightarrow> run h evs s')"

text \<open>The events that can happen in a state; none of them: nothing will ever happen again.\<close>

definition enabled :: "('a, 'r) ustate \<Rightarrow> event list" where
  "enabled s =
     (if producer s = Running then [Pull] else []) @
     map (\<lambda>f. Complete (fst f)) (in_flight s) @
     (if get_result_task s = Pending \<and> result_queue s \<noteq> [] then [Get] else []) @
     (if consumer s = Waiting
         \<and> (case get_result_task s of Done e \<Rightarrow> True | Pending \<Rightarrow> all_requests_handled s)
      then [Wake] else []) @
     (case consumer s of Suspended rid \<Rightarrow> [Resume] | Waiting \<Rightarrow> [] | Returned \<Rightarrow> []
      | Thrown e \<Rightarrow> [])"

section \<open>Concrete executions\<close>

definition req :: "nat \<Rightarrow> nat \<Rightarrow> nat request" where
  "req i p = \<lparr>request_id = i, payload = p\<rparr>"

text \<open>A dispatcher that answers with the payload, and fails on payload 0.\<close>

definition echo :: "nat request \<Rightarrow> nat outcome" where
  "echo r = (if payload r = 0 then Failure (Raised ''failed'') else Result (payload r))"

definition workload :: "('a, 'r) ustate \<Rightarrow> nat" where
  "workload s =
     5 * length (source s) + 4 * length (in_flight s) + 3 * length (result_queue s)
     + (case consumer s of
          Waiting \<Rightarrow> (case get_result_task s of Done e \<Rightarrow> 3 | Pending \<Rightarrow> 1)
        | Suspended rid \<Rightarrow> 2 | Returned \<Rightarrow> 0 | Thrown e \<Rightarrow> 0)
     + (if producer s = Running then 1 else 0)"

definition futures :: "'a request list \<Rightarrow> 'a future list" where
  "futures rs = enumerate 0 rs"

definition env_ok :: "'a request list \<Rightarrow> exn option \<Rightarrow> ('a, 'r, 'z) env_scheme \<Rightarrow> bool" where
  "env_ok reqs fault s \<longleftrightarrow>
     dispatched s @ source s = reqs \<and> source_fault s = fault \<and>
     mset (in_flight s) + mset (completed s) = mset (futures (dispatched s))"

definition flags_ok :: "('a, 'r) ustate \<Rightarrow> bool" where
  "flags_ok s \<longleftrightarrow>
     (end_of_iter s \<longleftrightarrow> producer s = Finished) \<and>
     (producer s = Finished \<longrightarrow> source s = [] \<and> source_fault s = None) \<and>
     (\<forall>e. producer s = Crashed e \<longrightarrow> source s = [] \<and> source_fault s = Some e) \<and>
     eoi_calls s = (if producer s = Finished then 1 else 0) \<and>
     (all_requests_handled s \<longleftrightarrow> end_of_iter s \<and> requests_to_handle s = {}) \<and>
     (consumer s = Returned \<longrightarrow> all_requests_handled s)"

fun unread :: "'a get_task \<Rightarrow> 'a future list \<Rightarrow> 'a future list" where
  "unread Pending cs = []"
| "unread (Done e) cs = (if snd e \<in> set cs then [] else [snd e])"

definition pipe_ok :: "('a, 'r) ustate \<Rightarrow> bool" where
  "pipe_ok s \<longleftrightarrow>
     completed s = consumed s @ unread (get_result_task s) (consumed s) @ map snd (result_queue s) \<and>
     (consumer s = Waiting \<longrightarrow> (\<forall>e. get_result_task s = Done e \<longrightarrow> snd e \<notin> set (consumed s))) \<and>
     (\<forall>rid. consumer s = Suspended rid \<longrightarrow>
        (\<exists>f. get_result_task s = Done (rid, f) \<and> consumed s \<noteq> [] \<and> last (consumed s) = f)) \<and>
     (\<forall>e \<in> set (result_queue s). fst e = request_id (snd (snd e))) \<and>
     (\<forall>e. get_result_task s = Done e \<longrightarrow> fst e = request_id (snd (snd e)))"

definition results_of :: "('a request \<Rightarrow> 'r outcome) \<Rightarrow> 'a future list \<Rightarrow> 'r list" where
  "results_of h fs =
     concat (map (\<lambda>f. case h (snd f) of Result v \<Rightarrow> [handle_result v] | Failure e \<Rightarrow> []) fs)"

definition succeeded :: "('a request \<Rightarrow> 'r outcome) \<Rightarrow> 'a future \<Rightarrow> bool" where
  "succeeded h f \<longleftrightarrow> (\<exists>v. h (snd f) = Result v)"

definition yield_ok :: "('a request \<Rightarrow> 'r outcome) \<Rightarrow> ('a, 'r) ustate \<Rightarrow> bool" where
  "yield_ok h s \<longleftrightarrow>
     yielded s = results_of h (consumed s) \<and>
     (\<forall>f \<in> set (butlast (consumed s)). succeeded h f) \<and>
     (consumed s \<noteq> [] \<longrightarrow>
        succeeded h (last (consumed s)) \<or>
        (\<exists>e. consumer s = Thrown e \<and> h (snd (last (consumed s))) = Failure e))"

definition inv ::
  "'a request list \<Rightarrow> exn option \<Rightarrow> ('a request \<Rightarrow> 'r outcome) \<Rightarrow> ('a, 'r) ustate \<Rightarrow> bool" where
  "inv reqs fault h s \<longleftrightarrow> env_ok reqs fault s \<and> flags_ok s \<and> pipe_ok s \<and> yield_ok h s"

fun removed :: "consumer \<Rightarrow> 'a future list \<Rightarrow> 'a future list" where
  "removed (Suspended rid) cs = butlast cs"
| "removed Waiting cs = cs"
| "removed Returned cs = cs"
| "removed (Thrown e) cs = cs"

definition ids_ok :: "('a request \<Rightarrow> 'r outcome) \<Rightarrow> ('a, 'r) ustate \<Rightarrow> bool" where
  "ids_ok h s \<longleftrightarrow>
     ((\<exists>e. consumer s = Thrown e) \<or>
      requests_to_handle s =
        request_id ` set (dispatched s)
        - (\<lambda>f. request_id (snd f)) ` set (removed (consumer s) (consumed s))) \<and>
     (\<forall>e. consumer s = Thrown e \<longrightarrow>
        consumed s \<noteq> [] \<and> h (snd (last (consumed s))) = Failure e)"

definition succeeds :: "('a request \<Rightarrow> 'r outcome) \<Rightarrow> 'a request \<Rightarrow> bool" where
  "succeeds h r = (case h r of Result v \<Rightarrow> True | Failure e \<Rightarrow> False)"

definition outcome ::
  "('a request \<Rightarrow> 'r outcome) \<Rightarrow> event list \<Rightarrow> ('a, 'r) ustate
     \<Rightarrow> (consumer \<times> 'r list \<times> event list) option" where
  "outcome h evs s = map_option (\<lambda>s'. (consumer s', yielded s', enabled s')) (run h evs s)"

section \<open>The engine with prefetching: \<^verbatim>\<open>_stream_requests_with_prefetch\<close>\<close>

text \<open>
  Here the generator does everything itself, so its position in the code is the whole
  control state: filling the first window (with the \<^verbatim>\<open>count\<close> of
  \<^verbatim>\<open>iterate_requests\<close>), waiting for the next result of \<^verbatim>\<open>asyncio.as_completed\<close> in the
  loop of line 180 or of line 198 (with the futures \<^verbatim>\<open>as_completed\<close> has not delivered
  yet), suspended at the \<^verbatim>\<open>yield\<close> of line 182 or 200, inside
  \<^verbatim>\<open>iterate_requests(1, onrecv_task)\<close> of line 202, returned, or ended by an exception.
\<close>

datatype 'a pc =
  Fill nat
| Refill nat "'a future list"
| ShortWait "'a future list"
| ShortYield "'a future list"
| SteadyWait "'a future list"
| SteadyYield "'a future list"
| Stopped
| Failed exn

record ('a, 'r) pstate = "('a, 'r) env" +
  prefetch_task :: "'a future list"
  onrecv_task :: "'a future list"
  is_req_empty :: bool
  pc :: "'a pc"
  errors_logged :: nat

text \<open>The generator has entered \<^verbatim>\<open>iterate_requests(prefetch, prefetch_task)\<close> of line 169.\<close>

definition start_prefetch :: "'a request list \<Rightarrow> exn option \<Rightarrow> ('a, 'r) pstate" where
  "start_prefetch reqs fault =
     \<lparr>source = reqs, source_fault = fault, dispatched = [], in_flight = [], completed = [],
      consumed = [], yielded = [], eoi_calls = 0,
      prefetch_task = [], onrecv_task = [], is_req_empty = False, pc = Fill 0,
      errors_logged = 0\<rparr>"

datatype turn = More | Return bool | Raise exn

text \<open>
  One turn of the loop of \<^verbatim>\<open>iterate_requests(num_req, fetch_to)\<close>, lines 160 to 166, after
  \<open>cnt\<close> requests: the next request is dispatched and its future appended to
  \<^verbatim>\<open>fetch_to\<close>; the function returns \<^verbatim>\<open>False\<close> when the cnt reaches \<^verbatim>\<open>num_req\<close>
  and \<^verbatim>\<open>True\<close> at the end of the iterator.
\<close>

definition iterate_requests_into ::
  "nat \<Rightarrow> nat \<Rightarrow> ('a future \<Rightarrow> ('a, 'r) pstate \<Rightarrow> ('a, 'r) pstate) \<Rightarrow> ('a, 'r) pstate
     \<Rightarrow> turn \<times> ('a, 'r) pstate" where
  "iterate_requests_into num_req cnt fetch_to s =
     (case next_request s of
        Item r \<Rightarrow>
          (let (f, s1) = handle_request r (s\<lparr>source := tl (source s)\<rparr>)
           in (if cnt + 1 = num_req then Return False else More, fetch_to f s1))
      | StopAsyncIteration \<Rightarrow> (Return True, s)
      | Fault e \<Rightarrow> (Raise e, s))"

text \<open>
  The head of the loop of line 187: with a window, \<^verbatim>\<open>onrecv_task\<close> is cleared and
  \<^verbatim>\<open>as_completed(prefetch_task)\<close> is awaited; without, the generator returns. The debug
  message of lines 188 to 196 changes nothing and is left out.
\<close>

definition loop_head :: "('a, 'r) pstate \<Rightarrow> ('a, 'r) pstate" where
  "loop_head s =
     (if prefetch_task s \<noteq> [] then s\<lparr>onrecv_task := [], pc := SteadyWait (prefetch_task s)\<rparr>
      else s\<lparr>pc := Stopped\<rparr>)"

text \<open>Lines 170 to 185, after the first \<^verbatim>\<open>iterate_requests\<close> has returned.\<close>

definition after_fill :: "('a, 'r) pstate \<Rightarrow> ('a, 'r) pstate" where
  "after_fill s =
     (if is_req_empty s \<and> prefetch_task s = []
      then s\<lparr>errors_logged := errors_logged s + 1, pc := Stopped\<rparr>
      else if is_req_empty s then s\<lparr>pc := ShortWait (prefetch_task s)\<rparr>
      else loop_head (s\<lparr>onrecv_task := []\<rparr>))"

text \<open>
  The \<^verbatim>\<open>for\<close> of line 198 goes on: to the next future of the window, or, the window
  drained, to lines 205 and 206 and the head of the loop.
\<close>

definition advance :: "'a future list \<Rightarrow> ('a, 'r) pstate \<Rightarrow> ('a, 'r) pstate" where
  "advance todo s =
     (if todo \<noteq> [] then s\<lparr>pc := SteadyWait todo\<rparr>
      else loop_head (s\<lparr>prefetch_task := onrecv_task s\<rparr>))"

text \<open>The iterator delivers to the \<^verbatim>\<open>iterate_requests\<close> that awaits it.\<close>

definition pull :: "nat \<Rightarrow> ('a, 'r) pstate \<Rightarrow> ('a, 'r) pstate option" where
  "pull prefetch s =
     (case pc s of
        Fill cnt \<Rightarrow>
          Some
            (case iterate_requests_into prefetch cnt
                    (\<lambda>f s. s\<lparr>prefetch_task := prefetch_task s @ [f]\<rparr>) s of
               (More, s') \<Rightarrow> s'\<lparr>pc := Fill (cnt + 1)\<rparr>
             | (Return b, s') \<Rightarrow> after_fill (s'\<lparr>is_req_empty := b\<rparr>)
             | (Raise e, s') \<Rightarrow> s'\<lparr>pc := Failed e\<rparr>)
      | Refill cnt todo \<Rightarrow>
          Some
            (case iterate_requests_into 1 cnt
                    (\<lambda>f s. s\<lparr>onrecv_task := onrecv_task s @ [f]\<rparr>) s of
               (More, s') \<Rightarrow> s'\<lparr>pc := Refill (cnt + 1) todo\<rparr>
             | (Return b, s') \<Rightarrow> advance todo (s'\<lparr>is_req_empty := b\<rparr>)
             | (Raise e, s') \<Rightarrow> s'\<lparr>pc := Failed e\<rparr>)
      | ShortWait todo \<Rightarrow> None
      | ShortYield todo \<Rightarrow> None
      | SteadyWait todo \<Rightarrow> None
      | SteadyYield todo \<Rightarrow> None
      | Stopped \<Rightarrow> None
      | Failed e \<Rightarrow> None)"

definition finished :: "nat \<Rightarrow> ('a, 'r) pstate \<Rightarrow> ('a, 'r) pstate option" where
  "finished i s =
     (case pending_future i s of
        None \<Rightarrow> None
      | Some f \<Rightarrow> Some (finish f s))"

text \<open>
  \<^verbatim>\<open>asyncio.as_completed\<close> is library code. Its contract is modelled: awaiting its next
  item gives the future that finished earliest among those it has not delivered.
\<close>

definition earliest :: "'a future list \<Rightarrow> 'a future list \<Rightarrow> 'a future option" where
  "earliest done todo = find (\<lambda>f. f \<in> set todo) done"

text \<open>\<^verbatim>\<open>res = await r\<close> and the \<^verbatim>\<open>yield\<close>: a failed future raises at the \<^verbatim>\<open>await\<close>.\<close>

definition take_result ::
  "('a request \<Rightarrow> 'r outcome) \<Rightarrow> 'a future \<Rightarrow> 'a pc \<Rightarrow> ('a, 'r) pstate \<Rightarrow> ('a, 'r) pstate" where
  "take_result h f k s =
     (case h (snd f) of
        Result v \<Rightarrow>
          s\<lparr>consumed := consumed s @ [f], yielded := yielded s @ [handle_result v], pc := k\<rparr>
      | Failure e \<Rightarrow> s\<lparr>consumed := consumed s @ [f], pc := Failed e\<rparr>)"

definition deliver ::
  "('a request \<Rightarrow> 'r outcome) \<Rightarrow> ('a, 'r) pstate \<Rightarrow> ('a, 'r) pstate option" where
  "deliver h s =
     (case pc s of
        ShortWait todo \<Rightarrow>
          (case earliest (completed s) todo of
             None \<Rightarrow> None
           | Some f \<Rightarrow> Some (take_result h f (ShortYield (remove1 f todo)) s))
      | SteadyWait todo \<Rightarrow>
          (case earliest (completed s) todo of
             None \<Rightarrow> None
           | Some f \<Rightarrow> Some (take_result h f (SteadyYield (remove1 f todo)) s))
      | Fill cnt \<Rightarrow> None
      | Refill cnt todo \<Rightarrow> None
      | ShortYield todo \<Rightarrow> None
      | SteadyYield todo \<Rightarrow> None
      | Stopped \<Rightarrow> None
      | Failed e \<Rightarrow> None)"

text \<open>
  The caller asks for the next item: after the \<^verbatim>\<open>yield\<close> of line 182 the loop of line 180
  goes on; after the \<^verbatim>\<open>yield\<close> of line 200 one more request is asked for unless the
  iterator is known to be exhausted.
\<close>

definition continue :: "('a, 'r) pstate \<Rightarrow> ('a, 'r) pstate option" where
  "continue s =
     (case pc s of
        ShortYield todo \<Rightarrow> Some (if todo \<noteq> [] then s\<lparr>pc := ShortWait todo\<rparr> else s\<lparr>pc := Stopped\<rparr>)
      | SteadyYield todo \<Rightarrow>
          Some (if \<not> is_req_empty s then s\<lparr>pc := Refill 0 todo\<rparr> else advance todo s)
      | Fill cnt \<Rightarrow> None
      | Refill cnt todo \<Rightarrow> None
      | ShortWait todo \<Rightarrow> None
      | SteadyWait todo \<Rightarrow> None
      | Stopped \<Rightarrow> None
      | Failed e \<Rightarrow> None)"

definition step_prefetch ::
  "nat \<Rightarrow> ('a request \<Rightarrow> 'r outcome) \<Rightarrow> event \<Rightarrow> ('a, 'r) pstate \<Rightarrow> ('a, 'r) pstate option" where
  "step_prefetch prefetch h ev s =
     (case ev of
        Pull \<Rightarrow> pull prefetch s
      | Complete i \<Rightarrow> finished i s
      | Get \<Rightarrow> None
      | Wake \<Rightarrow> deliver h s
      | Resume \<Rightarrow> continue s)"

primrec run_prefetch ::
  "nat \<Rightarrow> ('a request \<Rightarrow> 'r outcome) \<Rightarrow> event list \<Rightarrow> ('a, 'r) pstate
     \<Rightarrow> ('a, 'r) pstate option" where
  "run_prefetch prefetch h [] s = Some s"
| "run_prefetch prefetch h (ev # evs) s =
     (case step_prefetch prefetch h ev s of
        None \<Rightarrow> None
      | Some s' \<Rightarrow> run_prefetch prefetch h evs s')"

fun pc_events :: "'a pc \<Rightarrow> 'a future list \<Rightarrow> event list" where
  "pc_events (Fill cnt) done = [Pull]"
| "pc_events (Refill cnt todo) done = [Pull]"
| "pc_events (ShortWait todo) done = (case earliest done todo of None \<Rightarrow> [] | Some f \<Rightarrow> [Wake])"
| "pc_events (SteadyWait todo) done = (case earliest done todo of None \<Rightarrow> [] | Some f \<Rightarrow> [Wake])"
| "pc_events (ShortYield todo) done = [Resume]"
| "pc_events (SteadyYield todo) done = [Resume]"
| "pc_events Stopped done = []"
| "pc_events (Failed e) done = []"

definition enabled_prefetch :: "('a, 'r) pstate \<Rightarrow> event list" where
  "enabled_prefetch s =
     pc_events (pc s) (completed s) @ map (\<lambda>f. Complete (fst f)) (in_flight s)"

definition outcome_prefetch ::
  "nat \<Rightarrow> ('a request \<Rightarrow> 'r outcome) \<Rightarrow> event list \<Rightarrow> ('a, 'r) pstate
     \<Rightarrow> ('a pc \<times> 'r list \<times> event list) option" where
  "outcome_prefetch prefetch h evs s =
     map_option (\<lambda>s'. (pc s', yielded s', enabled_prefetch s')) (run_prefetch prefetch h evs s)"



fun waiting :: "'a pc \<Rightarrow> 'a future list \<Rightarrow> 'a future list \<Rightarrow> 'a future list" where
  "waiting (Fill c) p t = p"
| "waiting (Refill c todo) p t = todo @ t"
| "waiting (ShortWait todo) p t = todo"
| "waiting (ShortYield todo) p t = todo"
| "waiting (SteadyWait todo) p t = todo @ t"
| "waiting (SteadyYield todo) p t = todo @ t"
| "waiting Stopped p t = []"
| "waiting (Failed e) p t = []"

definition waiting_of :: "('a, 'r) pstate \<Rightarrow> 'a future list" where
  "waiting_of s = waiting (pc s) (prefetch_task s) (onrecv_task s)"

fun failed :: "'a pc \<Rightarrow> bool" where
  "failed (Failed e) = True"
| "failed (Fill c) = False"
| "failed (Refill c todo) = False"
| "failed (ShortWait todo) = False"
| "failed (ShortYield todo) = False"
| "failed (SteadyWait todo) = False"
| "failed (SteadyYield todo) = False"
| "failed Stopped = False"

definition part_ok :: "('a, 'r) pstate \<Rightarrow> bool" where
  "part_ok s \<longleftrightarrow>
     (\<exists>rest. mset (consumed s) + mset rest = mset (futures (dispatched s)) \<and>
        (\<not> failed (pc s) \<longrightarrow> rest = waiting_of s))"

fun after_end :: "'a pc \<Rightarrow> bool" where
  "after_end (ShortWait todo) = True"
| "after_end (ShortYield todo) = True"
| "after_end Stopped = True"
| "after_end (Fill c) = False"
| "after_end (Refill c todo) = False"
| "after_end (SteadyWait todo) = False"
| "after_end (SteadyYield todo) = False"
| "after_end (Failed e) = False"

fun window_ok :: "'a pc \<Rightarrow> bool" where
  "window_ok (ShortWait todo) = (todo \<noteq> [])"
| "window_ok (SteadyWait todo) = (todo \<noteq> [])"
| "window_ok (ShortYield todo) = True"
| "window_ok Stopped = True"
| "window_ok (Fill c) = True"
| "window_ok (Refill c todo) = True"
| "window_ok (SteadyYield todo) = True"
| "window_ok (Failed e) = True"

definition src_ok :: "('a, 'r) pstate \<Rightarrow> bool" where
  "src_ok s \<longleftrightarrow>
     (is_req_empty s \<longrightarrow> source s = [] \<and> source_fault s = None) \<and>
     (after_end (pc s) \<longrightarrow> is_req_empty s) \<and> window_ok (pc s)"

fun pc_cap :: "'a pc \<Rightarrow> nat \<Rightarrow> nat \<Rightarrow> nat \<Rightarrow> bool" where
  "pc_cap (Fill c) N d y = (d = c \<and> c < N)"
| "pc_cap (Refill c todo) N d y = (c = 0 \<and> d < N + y)"
| "pc_cap (SteadyYield todo) N d y = (d < N + y)"
| "pc_cap (ShortWait todo) N d y = (d \<le> N + y)"
| "pc_cap (ShortYield todo) N d y = (d \<le> N + y)"
| "pc_cap (SteadyWait todo) N d y = (d \<le> N + y)"
| "pc_cap Stopped N d y = (d \<le> N + y)"
| "pc_cap (Failed e) N d y = (d \<le> N + y)"

definition cap_ok :: "nat \<Rightarrow> ('a, 'r) pstate \<Rightarrow> bool" where
  "cap_ok N s = pc_cap (pc s) N (length (dispatched s)) (length (yielded s))"

definition pyield_ok :: "('a request \<Rightarrow> 'r outcome) \<Rightarrow> ('a, 'r) pstate \<Rightarrow> bool" where
  "pyield_ok h s \<longleftrightarrow>
     yielded s = results_of h (consumed s) \<and>
     (\<forall>f \<in> set (butlast (consumed s)). succeeded h f) \<and>
     (consumed s \<noteq> [] \<longrightarrow>
        succeeded h (last (consumed s)) \<or>
        (\<exists>e. pc s = Failed e \<and> h (snd (last (consumed s))) = Failure e)) \<and>
     (\<forall>e. pc s = Failed e \<longrightarrow>
        source s = [] \<and> source_fault s = Some e \<or>
        consumed s \<noteq> [] \<and> h (snd (last (consumed s))) = Failure e)"

definition pinv ::
  "'a request list \<Rightarrow> exn option \<Rightarrow> ('a request \<Rightarrow> 'r outcome) \<Rightarrow> ('a, 'r) pstate \<Rightarrow> bool" where
  "pinv reqs fault h s \<longleftrightarrow>
     env_ok reqs fault s \<and> part_ok s \<and> src_ok s \<and> pyield_ok h s \<and> eoi_calls s = 0"

fun filling :: "'a pc \<Rightarrow> bool" where
  "filling (Fill c) = True"
| "filling (Refill c todo) = False"
| "filling (ShortWait todo) = False"
| "filling (ShortYield todo) = False"
| "filling (SteadyWait todo) = False"
| "filling (SteadyYield todo) = False"
| "filling Stopped = False"
| "filling (Failed e) = False"


lemmas engine_defs =
  step_def iterate_requests_def complete_def queue_get_def wake_def resume_def callback_def
  finish_def pending_future_def handle_request_def next_request_def handle_result_def
  start_def enabled_def req_def echo_def Let_def

text \<open>
  C10. Two requests with the same identifier 7. Their identifier is in
  \<^verbatim>\<open>requests_to_handle\<close> once. In the first execution both are dispatched and the
  iterator ends before the first result is taken: removing 7 empties the set, the
  all-handled event is set and the generator returns after one result, with the second
  entry still on the queue. In the second execution the first result is taken before the
  second request is read: both results are yielded and the second removal of 7 raises
  \<^verbatim>\<open>KeyError\<close>.
\<close>

theorem duplicate_request_id_breaks_stream:
  "(\<exists>s. run echo [Pull, Pull, Pull, Complete 0, Complete 1, Get, Wake, Resume]
           (start [req 7 1, req 7 2] None) = Some s
        \<and> enabled s = [] \<and> consumer s = Returned \<and> yielded s = [1]
        \<and> result_queue s = [(7, (1, req 7 2))])
   \<and> (\<exists>s. run echo [Pull, Complete 0, Get, Wake, Pull, Resume, Complete 1, Get, Wake, Pull, Resume]
           (start [req 7 1, req 7 2] None) = Some s
        \<and> enabled s = [] \<and> consumer s = Thrown (KeyError 7) \<and> yielded s = [1, 2])"
  by (simp add: engine_defs)

lemma find_in_set: "find P xs = Some x \<Longrightarrow> x \<in> set xs \<and> P x"
  by (induction xs) (auto split: if_splits)

lemma iterate_requests_item:
  "producer s = Running \<Longrightarrow> source s = r # rs \<Longrightarrow>
   iterate_requests s =
     Some (s\<lparr>source := rs,
             requests_to_handle := insert (request_id r) (requests_to_handle s),
             dispatched := dispatched s @ [r],
             in_flight := in_flight s @ [(length (dispatched s), r)]\<rparr>)"
  by (simp add: iterate_requests_def next_request_def handle_request_def Let_def)

lemma iterate_requests_stop:
  "producer s = Running \<Longrightarrow> source s = [] \<Longrightarrow> source_fault s = None \<Longrightarrow>
   iterate_requests s =
     Some (s\<lparr>eoi_calls := eoi_calls s + 1, end_of_iter := True, producer := Finished,
             all_requests_handled := (requests_to_handle s = {} \<or> all_requests_handled s)\<rparr>)"
  by (cases "requests_to_handle s = {}")
    (simp_all add: iterate_requests_def next_request_def Let_def)

lemma iterate_requests_fault:
  "producer s = Running \<Longrightarrow> source s = [] \<Longrightarrow> source_fault s = Some e \<Longrightarrow>
   iterate_requests s = Some (s\<lparr>producer := Crashed e\<rparr>)"
  by (simp add: iterate_requests_def next_request_def)

lemma iterate_requests_running: "iterate_requests s = Some s' \<Longrightarrow> producer s = Running"
  by (simp add: iterate_requests_def split: if_splits)

lemma iterate_requests_cases:
  assumes "iterate_requests s = Some s'"
  obtains (item) r rs where "producer s = Running" "source s = r # rs"
      "s' = s\<lparr>source := rs,
              requests_to_handle := insert (request_id r) (requests_to_handle s),
              dispatched := dispatched s @ [r],
              in_flight := in_flight s @ [(length (dispatched s), r)]\<rparr>"
  | (stop) "producer s = Running" "source s = []" "source_fault s = None"
      "s' = s\<lparr>eoi_calls := eoi_calls s + 1, end_of_iter := True, producer := Finished,
              all_requests_handled := (requests_to_handle s = {} \<or> all_requests_handled s)\<rparr>"
  | (fault) e where "producer s = Running" "source s = []" "source_fault s = Some e"
      "s' = s\<lparr>producer := Crashed e\<rparr>"
proof -
  have p: "producer s = Running" using assms by (rule iterate_requests_running)
  show ?thesis
  proof (cases "source s")
    case Nil
    show ?thesis
    proof (cases "source_fault s")
      case None
      from assms iterate_requests_stop [OF p Nil None] show ?thesis
        by (intro stop [OF p Nil None]) simp
    next
      case (Some e)
      from assms iterate_requests_fault [OF p Nil Some] show ?thesis
        by (intro fault [OF p Nil Some]) simp
    qed
  next
    case (Cons r rs)
    from assms iterate_requests_item [OF p Cons] show ?thesis
      by (intro item [OF p Cons]) simp
  qed
qed

lemma complete_cases:
  assumes "complete i s = Some s'"
  obtains f where "f \<in> set (in_flight s)" "fst f = i"
      "s' = s\<lparr>in_flight := remove1 f (in_flight s), completed := completed s @ [f],
              result_queue := result_queue s @ [(request_id (snd f), f)]\<rparr>"
proof -
  from assms obtain f where f: "pending_future i s = Some f" and s': "s' = callback f (finish f s)"
    by (auto simp: complete_def split: option.splits)
  from f have "f \<in> set (in_flight s)" "fst f = i"
    by (auto simp: pending_future_def dest: find_in_set)
  then show ?thesis using s' by (intro that [of f]) (simp_all add: callback_def finish_def)
qed

lemma queue_get_cases:
  assumes "queue_get s = Some s'"
  obtains e q where "get_result_task s = Pending" "result_queue s = e # q"
      "s' = s\<lparr>result_queue := q, get_result_task := Done e\<rparr>"
proof (cases "get_result_task s")
  case Pending
  show ?thesis
  proof (cases "result_queue s")
    case Nil
    with Pending assms show ?thesis by (simp add: queue_get_def)
  next
    case (Cons e q)
    with Pending have "queue_get s = Some (s\<lparr>result_queue := q, get_result_task := Done e\<rparr>)"
      by (simp add: queue_get_def)
    with assms show ?thesis by (intro that [OF Pending Cons]) simp
  qed
next
  case (Done e)
  with assms show ?thesis by (simp add: queue_get_def)
qed

lemma wake_cases:
  assumes "wake h s = Some s'"
  obtains (yield) rid f v where "consumer s = Waiting" "get_result_task s = Done (rid, f)"
      "h (snd f) = Result v"
      "s' = s\<lparr>consumed := consumed s @ [f], yielded := yielded s @ [handle_result v],
              consumer := Suspended rid\<rparr>"
  | (raise) rid f e where "consumer s = Waiting" "get_result_task s = Done (rid, f)"
      "h (snd f) = Failure e"
      "s' = s\<lparr>consumed := consumed s @ [f], consumer := Thrown e\<rparr>"
  | (return) "consumer s = Waiting" "get_result_task s = Pending" "all_requests_handled s"
      "s' = s\<lparr>consumer := Returned\<rparr>"
proof -
  have w: "consumer s = Waiting" using assms by (simp add: wake_def split: if_splits)
  show ?thesis
  proof (cases "get_result_task s")
    case Pending
    show ?thesis
    proof (cases "all_requests_handled s")
      case True
      with w Pending have "wake h s = Some (s\<lparr>consumer := Returned\<rparr>)" by (simp add: wake_def)
      with assms show ?thesis by (intro return [OF w Pending True]) simp
    next
      case False
      with w Pending assms show ?thesis by (simp add: wake_def)
    qed
  next
    case (Done e)
    obtain rid f where e: "e = (rid, f)" by (cases e)
    note d = Done [unfolded e]
    show ?thesis
    proof (cases "h (snd f)")
      case (Result v)
      with w d have "wake h s = Some (s\<lparr>consumed := consumed s @ [f],
        yielded := yielded s @ [handle_result v], consumer := Suspended rid\<rparr>)"
        by (simp add: wake_def)
      with assms show ?thesis by (intro yield [OF w d Result]) simp
    next
      case (Failure x)
      with w d have "wake h s = Some (s\<lparr>consumed := consumed s @ [f], consumer := Thrown x\<rparr>)"
        by (simp add: wake_def)
      with assms show ?thesis by (intro raise [OF w d Failure]) simp
    qed
  qed
qed

lemma same_result: "x = Some a \<Longrightarrow> x = Some b \<Longrightarrow> a = b"
  by simp

lemma resume_keyerror:
  "consumer s = Suspended rid \<Longrightarrow> rid \<notin> requests_to_handle s \<Longrightarrow>
   resume s = Some (s\<lparr>consumer := Thrown (KeyError rid)\<rparr>)"
  by (simp add: resume_def)

lemma resume_last:
  "consumer s = Suspended rid \<Longrightarrow> requests_to_handle s = {rid} \<Longrightarrow> end_of_iter s \<Longrightarrow>
   resume s = Some (s\<lparr>requests_to_handle := {}, all_requests_handled := True,
                      consumer := Returned\<rparr>)"
  by (simp add: resume_def Let_def)

lemma resume_more1:
  "consumer s = Suspended rid \<Longrightarrow> rid \<in> requests_to_handle s \<Longrightarrow> \<not> end_of_iter s \<Longrightarrow>
   resume s = Some (s\<lparr>requests_to_handle := requests_to_handle s - {rid},
            get_result_task := Pending,
            consumer := (if all_requests_handled s then Returned else Waiting)\<rparr>)"
  by (cases "all_requests_handled s") (simp_all add: resume_def Let_def)

lemma resume_more2:
  "consumer s = Suspended rid \<Longrightarrow> rid \<in> requests_to_handle s \<Longrightarrow>
   \<not> requests_to_handle s \<subseteq> {rid} \<Longrightarrow>
   resume s = Some (s\<lparr>requests_to_handle := requests_to_handle s - {rid},
            get_result_task := Pending,
            consumer := (if all_requests_handled s then Returned else Waiting)\<rparr>)"
  by (cases "all_requests_handled s") (simp_all add: resume_def Let_def)

lemma resume_suspended: "resume s = Some s' \<Longrightarrow> \<exists>rid. consumer s = Suspended rid"
  by (cases "consumer s") (simp_all add: resume_def)

lemma resume_cases:
  assumes "resume s = Some s'"
  obtains (keyerror) rid where "consumer s = Suspended rid" "rid \<notin> requests_to_handle s"
      "s' = s\<lparr>consumer := Thrown (KeyError rid)\<rparr>"
  | (last) rid where "consumer s = Suspended rid" "requests_to_handle s = {rid}" "end_of_iter s"
      "s' = s\<lparr>requests_to_handle := {}, all_requests_handled := True, consumer := Returned\<rparr>"
  | (more) rid where "consumer s = Suspended rid" "rid \<in> requests_to_handle s"
      "requests_to_handle s \<noteq> {rid} \<or> \<not> end_of_iter s"
      "s' = s\<lparr>requests_to_handle := requests_to_handle s - {rid},
            get_result_task := Pending,
            consumer := (if all_requests_handled s then Returned else Waiting)\<rparr>"
proof -
  from assms obtain rid where c: "consumer s = Suspended rid"
    using resume_suspended by blast
  show ?thesis
  proof (cases "rid \<in> requests_to_handle s")
    case False
    show ?thesis
      by (rule keyerror [OF c False same_result [OF assms resume_keyerror [OF c False]]])
  next
    case True
    show ?thesis
    proof (cases "end_of_iter s")
      case e: False
      then have d: "requests_to_handle s \<noteq> {rid} \<or> \<not> end_of_iter s" by simp
      show ?thesis
        by (rule more [OF c True d same_result [OF assms resume_more1 [OF c True e]]])
    next
      case e: True
      show ?thesis
      proof (cases "requests_to_handle s = {rid}")
        case r: True
        show ?thesis
          by (rule last [OF c r e same_result [OF assms resume_last [OF c r e]]])
      next
        case r: False
        then have d: "requests_to_handle s \<noteq> {rid} \<or> \<not> end_of_iter s" by simp
        from r True have n: "\<not> requests_to_handle s \<subseteq> {rid}" by auto
        show ?thesis
          by (rule more [OF c True d same_result [OF assms resume_more2 [OF c True n]]])
      qed
    qed
  qed
qed

lemma workload_iterate_requests:
  "iterate_requests s = Some s' \<Longrightarrow> workload s' < workload s"
  by (erule iterate_requests_cases)
    (simp_all add: workload_def split: consumer.split get_task.split)

lemma workload_complete: "complete i s = Some s' \<Longrightarrow> workload s' < workload s"
proof (erule complete_cases)
  fix f assume f: "f \<in> set (in_flight s)"
    and s': "s' = s\<lparr>in_flight := remove1 f (in_flight s), completed := completed s @ [f],
              result_queue := result_queue s @ [(request_id (snd f), f)]\<rparr>"
  from f have "length (remove1 f (in_flight s)) + 1 = length (in_flight s)"
    using length_pos_if_in_set [of f "in_flight s"] by (simp add: length_remove1)
  then show "workload s' < workload s" unfolding s'
    by (simp add: workload_def split: consumer.split get_task.split)
qed

lemma workload_queue_get: "queue_get s = Some s' \<Longrightarrow> workload s' < workload s"
  by (erule queue_get_cases) (simp add: workload_def split: consumer.split)

lemma workload_wake: "wake h s = Some s' \<Longrightarrow> workload s' < workload s"
  by (erule wake_cases) (simp_all add: workload_def split: consumer.split get_task.split)

lemma workload_resume: "resume s = Some s' \<Longrightarrow> workload s' < workload s"
  by (erule resume_cases) (simp_all add: workload_def split: consumer.split get_task.split)

lemma workload_step: "step h ev s = Some s' \<Longrightarrow> workload s' < workload s"
  by (cases ev)
    (auto simp: step_def dest: workload_iterate_requests workload_complete workload_queue_get
      workload_wake workload_resume)

lemma workload_run: "run h evs s = Some s' \<Longrightarrow> length evs + workload s' \<le> workload s"
proof (induction evs arbitrary: s)
  case Nil
  then show ?case by simp
next
  case (Cons ev evs)
  then obtain s1 where s1: "step h ev s = Some s1" and r: "run h evs s1 = Some s'"
    by (auto split: option.splits)
  from Cons.IH [OF r] workload_step [OF s1] show ?case by simp
qed

lemma enabled_step: "ev \<in> set (enabled s) \<Longrightarrow> \<exists>s'. step h ev s = Some s'"
  by (auto simp: enabled_def step_def iterate_requests_def complete_def queue_get_def wake_def
      resume_def pending_future_def find_None_iff
      split: if_splits consumer.splits get_task.splits list.splits option.splits prod.splits)

lemma run_append: "run h (evs @ evs') s = (case run h evs s of None \<Rightarrow> None | Some s' \<Rightarrow> run h evs' s')"
  by (induction evs arbitrary: s) (auto split: option.splits)

lemma quiescence: "\<exists>evs s'. run h evs s = Some s' \<and> enabled s' = []"
proof (induction s rule: measure_induct_rule [where f = workload])
  case (less s)
  show ?case
  proof (cases "enabled s")
    case Nil
    then have "run h [] s = Some s \<and> enabled s = []" by simp
    then show ?thesis by blast
  next
    case (Cons ev evs)
    then have "ev \<in> set (enabled s)" by simp
    then obtain s1 where s1: "step h ev s = Some s1" using enabled_step by blast
    from less [OF workload_step [OF s1]] obtain evs' s' where
      "run h evs' s1 = Some s'" "enabled s' = []" by blast
    with s1 have "run h (ev # evs') s = Some s' \<and> enabled s' = []" by simp
    then show ?thesis by blast
  qed
qed

lemma futures_snoc: "futures (rs @ [r]) = futures rs @ [(length rs, r)]"
  by (simp add: futures_def enumerate_append_eq)

lemma futures_Nil: "futures [] = []"
  by (simp add: futures_def)

lemma map_snd_futures: "map snd (futures rs) = rs"
  by (simp add: futures_def)

lemma distinct_futures: "distinct (futures rs)"
  by (simp add: futures_def distinct_enumerate)

lemma length_futures: "length (futures rs) = length rs"
  by (simp add: futures_def)

lemma env_ok_dispatch:
  assumes "env_ok reqs fault s" "source s = r # rs"
  shows "env_ok reqs fault (s\<lparr>source := rs, dispatched := dispatched s @ [r],
            in_flight := in_flight s @ [(length (dispatched s), r)]\<rparr>)"
  using assms by (auto simp: env_ok_def futures_snoc)

lemma mset_finish:
  "f \<in> set xs \<Longrightarrow> mset (remove1 f xs) + mset (ys @ [f]) = mset xs + mset ys"
  by (induction xs) auto

lemma env_ok_finish:
  assumes "env_ok reqs fault s" "f \<in> set (in_flight s)"
  shows "env_ok reqs fault (s\<lparr>in_flight := remove1 f (in_flight s),
            completed := completed s @ [f]\<rparr>)"
  using assms mset_finish [of f "in_flight s" "completed s"] by (simp add: env_ok_def)

lemma env_ok_distinct:
  assumes "env_ok reqs fault s"
  shows "distinct (in_flight s @ completed s)"
proof -
  from assms have "mset (in_flight s @ completed s) = mset (futures (dispatched s))"
    by (simp add: env_ok_def)
  then show ?thesis using distinct_futures mset_eq_imp_distinct_iff by blast
qed

lemma env_ok_completed:
  assumes "env_ok reqs fault s" "f \<in> set (completed s)"
  shows "f \<in> set (futures (dispatched s))"
proof -
  from assms have "f \<in># mset (in_flight s) + mset (completed s)" by simp
  with assms show ?thesis by (simp add: env_ok_def)
qed

lemma env_ok_step:
  assumes "env_ok reqs fault s" "step h ev s = Some s'"
  shows "env_ok reqs fault s'"
proof (cases ev)
  case Pull
  with assms have "iterate_requests s = Some s'" by (simp add: step_def)
  then show ?thesis using assms(1)
    by (cases rule: iterate_requests_cases) (auto simp: env_ok_def futures_snoc)
next
  case (Complete i)
  with assms have "complete i s = Some s'" by (simp add: step_def)
  then show ?thesis
  proof (cases rule: complete_cases)
    case (1 f)
    from assms(1) mset_finish [OF 1(1), of "completed s"] show ?thesis
      unfolding 1(3) by (simp add: env_ok_def)
  qed
next
  case Get
  with assms have "queue_get s = Some s'" by (simp add: step_def)
  then show ?thesis using assms(1)
    by (cases rule: queue_get_cases) (auto simp: env_ok_def)
next
  case Wake
  with assms have "wake h s = Some s'" by (simp add: step_def)
  then show ?thesis using assms(1)
    by (cases rule: wake_cases) (auto simp: env_ok_def)
next
  case Resume
  with assms have "resume s = Some s'" by (simp add: step_def)
  then show ?thesis using assms(1)
    by (cases rule: resume_cases) (auto simp: env_ok_def)
qed

lemma flags_ok_step:
  assumes "flags_ok s" "step h ev s = Some s'"
  shows "flags_ok s'"
proof (cases ev)
  case Pull
  with assms have "iterate_requests s = Some s'" by (simp add: step_def)
  then show ?thesis using assms(1)
    by (cases rule: iterate_requests_cases) (auto simp: flags_ok_def)
next
  case (Complete i)
  with assms have "complete i s = Some s'" by (simp add: step_def)
  then show ?thesis using assms(1)
    by (cases rule: complete_cases) (auto simp: flags_ok_def)
next
  case Get
  with assms have "queue_get s = Some s'" by (simp add: step_def)
  then show ?thesis using assms(1)
    by (cases rule: queue_get_cases) (auto simp: flags_ok_def)
next
  case Wake
  with assms have "wake h s = Some s'" by (simp add: step_def)
  then show ?thesis using assms(1)
    by (cases rule: wake_cases) (auto simp: flags_ok_def)
next
  case Resume
  with assms have "resume s = Some s'" by (simp add: step_def)
  then show ?thesis using assms(1)
    by (cases rule: resume_cases) (auto simp: flags_ok_def)
qed

lemma pipe_ok_pull:
  assumes "pipe_ok s" "iterate_requests s = Some s'"
  shows "pipe_ok s'"
  using assms(2,1) by (cases rule: iterate_requests_cases) (auto simp: pipe_ok_def)

lemma pipe_ok_complete:
  assumes "pipe_ok s" "complete i s = Some s'"
  shows "pipe_ok s'"
  using assms(2,1) by (cases rule: complete_cases) (auto simp: pipe_ok_def)

lemma pipe_ok_get:
  assumes "pipe_ok s" "distinct (completed s)" "queue_get s = Some s'"
  shows "pipe_ok s'"
  using assms(3)
proof (cases rule: queue_get_cases)
  case (1 e q)
  from assms(1) 1(1,2) have c: "completed s = consumed s @ snd e # map snd q"
    by (simp add: pipe_ok_def)
  with assms(2) have n: "snd e \<notin> set (consumed s)" by auto
  from assms(1) 1(1) have ns: "\<And>rid. consumer s \<noteq> Suspended rid"
    by (auto simp: pipe_ok_def)
  from assms(1) 1(2) have q: "fst e = request_id (snd (snd e))"
    "\<forall>e \<in> set q. fst e = request_id (snd (snd e))"
    by (auto simp: pipe_ok_def)
  show ?thesis unfolding 1(3) using c n ns q
    by (simp add: pipe_ok_def)
qed

lemma pipe_ok_wake:
  assumes "pipe_ok s" "wake h s = Some s'"
  shows "pipe_ok s'"
  using assms(2,1) by (cases rule: wake_cases) (auto simp: pipe_ok_def)

lemma pipe_ok_resume:
  assumes "pipe_ok s" "resume s = Some s'"
  shows "pipe_ok s'"
proof -
  from assms(2) obtain rid where c: "consumer s = Suspended rid"
    using resume_suspended by blast
  with assms(1) obtain f where f: "get_result_task s = Done (rid, f)" "consumed s \<noteq> []"
    "last (consumed s) = f"
    by (auto simp: pipe_ok_def)
  then have m: "f \<in> set (consumed s)" using last_in_set by blast
  with f have u: "unread (get_result_task s) (consumed s) = []" by simp
  from assms(1) u have p: "completed s = consumed s @ map snd (result_queue s)"
    "\<forall>e \<in> set (result_queue s). fst e = request_id (snd (snd e))"
    "\<forall>e. get_result_task s = Done e \<longrightarrow> fst e = request_id (snd (snd e))"
    by (simp_all add: pipe_ok_def)
  from assms(2) show ?thesis
  proof (cases rule: resume_cases)
    case (keyerror rid)
    show ?thesis unfolding keyerror(3) using p u by (simp add: pipe_ok_def)
  next
    case (last rid)
    show ?thesis unfolding last(4) using p u by (simp add: pipe_ok_def)
  next
    case (more rid)
    show ?thesis unfolding more(4) using p by (simp add: pipe_ok_def)
  qed
qed

lemma pipe_ok_step:
  assumes "pipe_ok s" "distinct (completed s)" "step h ev s = Some s'"
  shows "pipe_ok s'"
  using assms
  by (cases ev)
    (auto simp: step_def intro: pipe_ok_pull pipe_ok_complete pipe_ok_get pipe_ok_wake pipe_ok_resume)

lemma yield_ok_all:
  assumes "yield_ok h s" "\<And>e. consumer s \<noteq> Thrown e"
  shows "\<forall>f \<in> set (consumed s). succeeded h f"
proof (cases "consumed s" rule: rev_cases)
  case Nil
  then show ?thesis by simp
next
  case (snoc fs f)
  with assms show ?thesis by (auto simp: yield_ok_def)
qed

lemma results_of_snoc:
  "results_of h (fs @ [f]) =
     results_of h fs @ (case h (snd f) of Result v \<Rightarrow> [handle_result v] | Failure e \<Rightarrow> [])"
  by (simp add: results_of_def)

lemma yield_ok_step:
  assumes "yield_ok h s" "step h ev s = Some s'"
  shows "yield_ok h s'"
proof (cases ev)
  case Pull
  with assms have "iterate_requests s = Some s'" by (simp add: step_def)
  then show ?thesis using assms(1)
    by (cases rule: iterate_requests_cases) (auto simp: yield_ok_def)
next
  case (Complete i)
  with assms have "complete i s = Some s'" by (simp add: step_def)
  then show ?thesis using assms(1)
    by (cases rule: complete_cases) (auto simp: yield_ok_def)
next
  case Get
  with assms have "queue_get s = Some s'" by (simp add: step_def)
  then show ?thesis using assms(1)
    by (cases rule: queue_get_cases) (auto simp: yield_ok_def)
next
  case Wake
  with assms have w: "wake h s = Some s'" by (simp add: step_def)
  then have "consumer s = Waiting" by (cases rule: wake_cases) auto
  with assms(1) have all: "\<forall>f \<in> set (consumed s). succeeded h f"
    by (intro yield_ok_all) auto
  from w show ?thesis using assms(1) all
    by (cases rule: wake_cases) (auto simp: yield_ok_def results_of_snoc succeeded_def)
next
  case Resume
  with assms have "resume s = Some s'" by (simp add: step_def)
  then show ?thesis using assms(1)
    by (cases rule: resume_cases) (auto simp: yield_ok_def)
qed

lemma in_futures: "f \<in> set (futures rs) \<longleftrightarrow> fst f < length rs \<and> snd f = rs ! fst f"
  by (cases f) (auto simp: futures_def in_set_enumerate_eq)

lemma futures_snd: "f \<in> set (futures rs) \<Longrightarrow> snd f \<in> set rs"
  by (simp add: in_futures)

lemma futures_inj:
  assumes "distinct (map request_id rs)"
  shows "inj_on (\<lambda>f. request_id (snd f)) (set (futures rs))"
proof (rule inj_onI)
  fix f g assume f: "f \<in> set (futures rs)" and g: "g \<in> set (futures rs)"
    and e: "request_id (snd f) = request_id (snd g)"
  from f g have l: "fst f < length rs" "fst g < length rs"
    and v: "snd f = rs ! fst f" "snd g = rs ! fst g"
    by (simp_all add: in_futures)
  from e v l have "map request_id rs ! fst f = map request_id rs ! fst g" by simp
  moreover from nth_eq_iff_index_eq [OF assms, of "fst f" "fst g"] l
  have "(map request_id rs ! fst f = map request_id rs ! fst g) = (fst f = fst g)"
    by (simp only: length_map)
  ultimately have "fst f = fst g" by blast
  with v show "f = g" by (simp add: prod_eq_iff)
qed

lemma inv_start: "inv reqs fault h (start reqs fault)"
  by (simp add: inv_def env_ok_def flags_ok_def pipe_ok_def yield_ok_def start_def futures_Nil
      results_of_def)

lemma inv_step:
  assumes "inv reqs fault h s" "step h ev s = Some s'"
  shows "inv reqs fault h s'"
proof -
  from assms(1) have "distinct (completed s)"
    using env_ok_distinct [of reqs fault s] by (simp add: inv_def)
  with assms show ?thesis
    by (auto simp: inv_def intro: env_ok_step flags_ok_step pipe_ok_step yield_ok_step)
qed

lemma inv_run:
  assumes "inv reqs fault h s" "run h evs s = Some s'"
  shows "inv reqs fault h s'"
  using assms
proof (induction evs arbitrary: s)
  case Nil
  then show ?case by simp
next
  case (Cons ev evs)
  then obtain s1 where s1: "step h ev s = Some s1" and r: "run h evs s1 = Some s'"
    by (auto split: option.splits)
  from Cons.IH [OF inv_step [OF Cons.prems(1) s1] r] show ?case .
qed

lemma inv_reachable: "run h evs (start reqs fault) = Some s \<Longrightarrow> inv reqs fault h s"
  using inv_start inv_run by blast

lemma inv_consumed_prefix:
  assumes "inv reqs fault h s"
  shows "prefix (consumed s) (completed s)"
  using assms by (auto simp: inv_def pipe_ok_def prefix_def)

lemma inv_consumed_futures:
  assumes "inv reqs fault h s" "f \<in> set (consumed s)"
  shows "f \<in> set (futures (dispatched s))"
proof -
  from assms have "f \<in> set (completed s)" by (auto simp: inv_def pipe_ok_def)
  with assms(1) show ?thesis using env_ok_completed [of reqs fault s f] by (simp add: inv_def)
qed

lemma inv_consumed_ids:
  assumes "inv reqs fault h s" "distinct (map request_id reqs)"
  shows "distinct (map (\<lambda>f. request_id (snd f)) (consumed s))"
    and "inj_on (\<lambda>f. request_id (snd f)) (set (futures (dispatched s)))"
proof -
  from assms have d: "distinct (map request_id (dispatched s))"
    by (auto simp: inv_def env_ok_def)
  then show i: "inj_on (\<lambda>f. request_id (snd f)) (set (futures (dispatched s)))"
    by (rule futures_inj)
  from assms(1) have "distinct (completed s)"
    using env_ok_distinct [of reqs fault s] by (simp add: inv_def)
  with assms(1) have dc: "distinct (consumed s)" by (auto simp: inv_def pipe_ok_def)
  from assms(1) have "set (consumed s) \<subseteq> set (futures (dispatched s))"
    using inv_consumed_futures by blast
  with i have "inj_on (\<lambda>f. request_id (snd f)) (set (consumed s))"
    by (rule inj_on_subset)
  with dc show "distinct (map (\<lambda>f. request_id (snd f)) (consumed s))"
    by (simp add: distinct_map)
qed

lemma ids_ok_start: "ids_ok h (start reqs fault)"
  by (simp add: ids_ok_def start_def)

lemma ids_ok_pull:
  assumes "inv reqs fault h s" "distinct (map request_id reqs)" "ids_ok h s"
    "iterate_requests s = Some s'"
  shows "ids_ok h s'"
  using assms(4)
proof (cases rule: iterate_requests_cases)
  case (item r rs)
  from assms(1) item(2) have reqs: "reqs = dispatched s @ r # rs" by (simp add: inv_def env_ok_def)
  with assms(2) have new: "request_id r \<notin> request_id ` set (dispatched s)" by auto
  have "set (removed (consumer s) (consumed s)) \<subseteq> set (consumed s)"
    by (cases "consumer s") (auto dest: in_set_butlastD)
  then have "(\<lambda>f. request_id (snd f)) ` set (removed (consumer s) (consumed s))
      \<subseteq> request_id ` set (dispatched s)"
    using inv_consumed_futures [OF assms(1)] futures_snd by fastforce
  with new have "request_id r \<notin> (\<lambda>f. request_id (snd f)) ` set (removed (consumer s) (consumed s))"
    by blast
  with assms(3) show ?thesis unfolding item(3) by (auto simp: ids_ok_def)
next
  case stop
  with assms(3) show ?thesis by (auto simp: ids_ok_def)
next
  case (fault e)
  with assms(3) show ?thesis by (auto simp: ids_ok_def)
qed

lemma ids_ok_wake:
  assumes "ids_ok h s" "wake h s = Some s'"
  shows "ids_ok h s'"
  using assms(2,1) by (cases rule: wake_cases) (auto simp: ids_ok_def)

lemma ids_ok_resume:
  assumes "inv reqs fault h s" "distinct (map request_id reqs)" "ids_ok h s"
    "resume s = Some s'"
  shows "ids_ok h s' \<and> (\<forall>rid. consumer s' \<noteq> Thrown (KeyError rid) \<or> consumer s' = consumer s)"
proof -
  from assms(4) obtain rid where c: "consumer s = Suspended rid"
    using resume_suspended by blast
  with assms(1) obtain f where f: "get_result_task s = Done (rid, f)" "consumed s \<noteq> []"
    "last (consumed s) = f"
    by (auto simp: inv_def pipe_ok_def)
  with assms(1) have rid: "rid = request_id (snd f)" by (auto simp: inv_def pipe_ok_def)
  from f have cs: "consumed s = butlast (consumed s) @ [f]" using append_butlast_last_id by fastforce
  from inv_consumed_ids(1) [OF assms(1,2)] cs
  have "distinct (map (\<lambda>f. request_id (snd f)) (butlast (consumed s) @ [f]))" by simp
  then have nb: "rid \<notin> (\<lambda>f. request_id (snd f)) ` set (butlast (consumed s))"
    unfolding rid by auto
  from f have "f \<in> set (consumed s)" using last_in_set by blast
  then have "snd f \<in> set (dispatched s)"
    using inv_consumed_futures [OF assms(1)] futures_snd by blast
  then have "rid \<in> request_id ` set (dispatched s)" unfolding rid by simp
  moreover from assms(3) c have R: "requests_to_handle s =
     request_id ` set (dispatched s) - (\<lambda>f. request_id (snd f)) ` set (butlast (consumed s))"
    by (simp add: ids_ok_def)
  ultimately have inR: "rid \<in> requests_to_handle s" using nb by simp
  have "set (consumed s) = insert f (set (butlast (consumed s)))"
    by (subst cs) simp
  then have R': "requests_to_handle s - {rid} =
     request_id ` set (dispatched s) - (\<lambda>f. request_id (snd f)) ` set (consumed s)"
    unfolding R rid by auto
  from assms(4) show ?thesis
  proof (cases rule: resume_cases)
    case (keyerror rid')
    with c inR show ?thesis by simp
  next
    case (last rid')
    with c have "rid' = rid" by simp
    with last(2) R' have "{} = request_id ` set (dispatched s)
        - (\<lambda>f. request_id (snd f)) ` set (consumed s)" by simp
    then show ?thesis unfolding last(4) by (simp add: ids_ok_def)
  next
    case (more rid')
    with c have "rid' = rid" by simp
    with R' show ?thesis unfolding more(4) by (simp add: ids_ok_def)
  qed
qed

lemma ids_ok_step:
  assumes "inv reqs fault h s" "distinct (map request_id reqs)" "ids_ok h s"
    "step h ev s = Some s'"
  shows "ids_ok h s'"
proof (cases ev)
  case Pull
  with assms show ?thesis by (auto simp: step_def intro: ids_ok_pull)
next
  case (Complete i)
  with assms(4) have "complete i s = Some s'" by (simp add: step_def)
  then show ?thesis using assms(3)
    by (cases rule: complete_cases) (auto simp: ids_ok_def)
next
  case Get
  with assms(4) have "queue_get s = Some s'" by (simp add: step_def)
  then show ?thesis using assms(3)
    by (cases rule: queue_get_cases) (auto simp: ids_ok_def)
next
  case Wake
  with assms show ?thesis by (auto simp: step_def intro: ids_ok_wake)
next
  case Resume
  with assms show ?thesis using ids_ok_resume [of reqs fault h s s'] by (simp add: step_def)
qed

lemma ids_ok_run:
  assumes "inv reqs fault h s" "distinct (map request_id reqs)" "ids_ok h s"
    "run h evs s = Some s'"
  shows "ids_ok h s'"
  using assms
proof (induction evs arbitrary: s)
  case Nil
  then show ?case by simp
next
  case (Cons ev evs)
  then obtain s1 where s1: "step h ev s = Some s1" and r: "run h evs s1 = Some s'"
    by (auto split: option.splits)
  from Cons.IH [OF inv_step [OF Cons.prems(1) s1] Cons.prems(2)
      ids_ok_step [OF Cons.prems(1,2,3) s1] r]
  show ?case .
qed

lemma ids_ok_reachable:
  "distinct (map request_id reqs) \<Longrightarrow> run h evs (start reqs fault) = Some s \<Longrightarrow> ids_ok h s"
  using ids_ok_run [OF inv_start _ ids_ok_start] by blast

lemma succeeds_iff: "succeeds h r \<longleftrightarrow> (\<exists>v. h r = Result v)"
  by (simp add: succeeds_def split: outcome.split)

lemma results_of_succeed:
  "\<forall>f \<in> set fs. succeeds h (snd f) \<Longrightarrow> map Result (results_of h fs) = map (\<lambda>f. h (snd f)) fs"
  by (induction fs) (auto simp: results_of_def handle_result_def succeeds_iff)

lemma enabled_Nil:
  assumes "enabled s = []"
  shows "producer s \<noteq> Running" "in_flight s = []"
    "get_result_task s = Pending \<Longrightarrow> result_queue s = []"
    "consumer s = Waiting \<Longrightarrow> get_result_task s = Pending \<and> \<not> all_requests_handled s"
    "consumer s \<noteq> Suspended rid"
proof -
  from assms show "producer s \<noteq> Running" by (auto simp: enabled_def split: if_splits)
  from assms show "in_flight s = []" by (simp add: enabled_def)
  from assms show "get_result_task s = Pending \<Longrightarrow> result_queue s = []"
    by (auto simp: enabled_def split: if_splits)
  from assms show "consumer s = Waiting \<Longrightarrow> get_result_task s = Pending \<and> \<not> all_requests_handled s"
    by (cases "get_result_task s") (auto simp: enabled_def split: if_splits)
  from assms show "consumer s \<noteq> Suspended rid"
    by (cases "consumer s") (auto simp: enabled_def)
qed

lemma quiescent_all_yielded:
  assumes i: "inv reqs None h s" and ids: "ids_ok h s"
    and d: "distinct (map request_id reqs)"
    and ok: "\<forall>r \<in> set reqs. succeeds h r"
    and q: "enabled s = []"
  shows "consumer s = Returned \<and> mset (consumed s) = mset (futures reqs)
     \<and> mset (map Result (yielded s)) = mset (map h reqs)"
proof -
  note e = enabled_Nil [OF q]
  from i have env: "env_ok reqs None s" and fl: "flags_ok s" and pi: "pipe_ok s"
    and yi: "yield_ok h s" by (simp_all add: inv_def)
  have fin: "producer s = Finished"
  proof (cases "producer s")
    case (Crashed x)
    with fl env show ?thesis by (simp add: flags_ok_def env_ok_def)
  qed (use e(1) in simp_all)
  with fl have src: "source s = []" and eoi: "end_of_iter s" by (simp_all add: flags_ok_def)
  with env have disp: "dispatched s = reqs" by (simp add: env_ok_def)
  from env e(2) disp have comp: "mset (completed s) = mset (futures reqs)"
    by (simp add: env_ok_def)
  have sub: "set (consumed s) \<subseteq> set (futures reqs)"
    using inv_consumed_futures [OF i] disp by auto
  have good: "\<forall>f \<in> set (consumed s). succeeds h (snd f)"
    using sub ok futures_snd by blast
  have nothrow: "consumer s \<noteq> Thrown x" for x
  proof
    assume t: "consumer s = Thrown x"
    with ids have ne: "consumed s \<noteq> []" and fl: "h (snd (last (consumed s))) = Failure x"
      by (simp_all add: ids_ok_def)
    from ne have "last (consumed s) \<in> set (consumed s)" by simp
    with good have "succeeds h (snd (last (consumed s)))" by blast
    with fl show False by (simp add: succeeds_def)
  qed
  have dc: "distinct (completed s)" using env_ok_distinct [OF env] by simp
  with pi have dcons: "distinct (consumed s)" by (auto simp: pipe_ok_def)
  have notwait: "consumer s \<noteq> Waiting"
  proof
    assume w: "consumer s = Waiting"
    from e(4) [OF w] have g: "get_result_task s = Pending" and na: "\<not> all_requests_handled s"
      by simp_all
    from e(3) [OF g] pi g have "completed s = consumed s" by (simp add: pipe_ok_def)
    with comp have "set (consumed s) = set (futures reqs)" using mset_eq_setD by metis
    then have "(\<lambda>f. request_id (snd f)) ` set (consumed s) = request_id ` set reqs"
      by (simp add: image_image [symmetric] map_snd_futures flip: set_map)
    with ids w disp have "requests_to_handle s = {}" by (simp add: ids_ok_def)
    with fl eoi na show False by (simp add: flags_ok_def)
  qed
  have ret: "consumer s = Returned"
    using notwait nothrow e(5) by (cases "consumer s") auto
  with fl eoi have R: "requests_to_handle s = {}" by (auto simp: flags_ok_def)
  with ids ret disp have cover: "request_id ` set reqs \<subseteq> (\<lambda>f. request_id (snd f)) ` set (consumed s)"
    by (simp add: ids_ok_def)
  have inj: "inj_on (\<lambda>f. request_id (snd f)) (set (futures reqs))"
    using futures_inj [OF d] .
  have "set (futures reqs) \<subseteq> set (consumed s)"
  proof
    fix f assume f: "f \<in> set (futures reqs)"
    then have "request_id (snd f) \<in> request_id ` set reqs" using futures_snd by blast
    with cover obtain g where g: "g \<in> set (consumed s)"
      and eq: "request_id (snd f) = request_id (snd g)" by auto
    from g sub have "g \<in> set (futures reqs)" by blast
    with inj f eq have "f = g" by (auto dest: inj_onD)
    with g show "f \<in> set (consumed s)" by simp
  qed
  with sub have "set (consumed s) = set (futures reqs)" by blast
  with dcons have mc: "mset (consumed s) = mset (futures reqs)"
    using distinct_futures set_eq_iff_mset_eq_distinct by blast
  from yi have "map Result (yielded s) = map (\<lambda>f. h (snd f)) (consumed s)"
    using results_of_succeed [OF good] by (simp add: yield_ok_def)
  then have "mset (map Result (yielded s)) = image_mset (\<lambda>f. h (snd f)) (mset (consumed s))"
    by simp
  also have "\<dots> = image_mset (\<lambda>f. h (snd f)) (mset (futures reqs))" by (simp only: mc)
  also have "\<dots> = mset (map h (map snd (futures reqs)))" by (simp add: comp_def)
  finally have "mset (map Result (yielded s)) = mset (map h reqs)"
    by (simp only: map_snd_futures)
  with ret mc show ?thesis by simp
qed

lemma workload_start: "workload (start reqs fault) = 5 * length reqs + 2"
  by (simp add: workload_def start_def)

text \<open>
  C1, as stated, fails when an operation fails: with two requests of distinct identifiers,
  the first failing and finishing first, the failure leaves the generator at the first
  \<^verbatim>\<open>future.result()\<close>; nothing was yielded, nothing more can happen, and the second
  outcome stays on the queue.
\<close>

theorem unbounded_failure_loses_results:
  "distinct (map request_id [req 1 0, req 2 5])
   \<and> outcome echo [Pull, Pull, Pull, Complete 0, Complete 1, Get, Wake]
        (start [req 1 0, req 2 5] None) = Some (Thrown (Raised ''failed''), [], [])"
  by (simp add: outcome_def engine_defs)

text \<open>
  C1 (amended). For a finite input with pairwise distinct request identifiers, an
  iterator that does not raise and operations that all succeed: every execution of
  \<^verbatim>\<open>_stream_requests\<close> has at most \<open>5 * L + 2\<close> events, can be continued to a state
  where nothing can happen any more, and in every such state the generator has returned
  and has yielded exactly \<open>L\<close> values, the results of the \<open>L\<close> requests, each once
  (for \<open>L = 0\<close>: none).
\<close>

theorem stream_requests_yields_every_result:
  assumes "distinct (map request_id reqs)"
    and "\<forall>r \<in> set reqs. succeeds h r"
    and "run h evs (start reqs None) = Some s"
  shows "length evs \<le> 5 * length reqs + 2
     \<and> (\<exists>evs' s'. run h (evs @ evs') (start reqs None) = Some s' \<and> enabled s' = [])
     \<and> (enabled s = [] \<longrightarrow>
          consumer s = Returned \<and> length (yielded s) = length reqs
          \<and> mset (map Result (yielded s)) = mset (map h reqs))"
proof -
  from workload_run [OF assms(3)] have "length evs \<le> 5 * length reqs + 2"
    by (simp add: workload_start)
  moreover from quiescence [of h s] assms(3)
  have "\<exists>evs' s'. run h (evs @ evs') (start reqs None) = Some s' \<and> enabled s' = []"
    by (auto simp: run_append)
  moreover have "consumer s = Returned \<and> length (yielded s) = length reqs
      \<and> mset (map Result (yielded s)) = mset (map h reqs)" if q: "enabled s = []"
  proof -
    from quiescent_all_yielded [OF inv_reachable [OF assms(3)]
        ids_ok_reachable [OF assms(1,3)] assms(1,2) q]
    have r: "consumer s = Returned" and m: "mset (map Result (yielded s)) = mset (map h reqs)"
      by simp_all
    from m have "size (mset (map Result (yielded s))) = size (mset (map h reqs))" by simp
    then have "length (yielded s) = length reqs" by simp
    with r m show ?thesis by simp
  qed
  ultimately show ?thesis by blast
qed

text \<open>Two requests, the second finishing first: both results are yielded, in that order.\<close>

theorem stream_requests_yields_every_result_witness:
  "distinct (map request_id [req 1 5, req 2 6])
   \<and> succeeds echo (req 1 5) \<and> succeeds echo (req 2 6)
   \<and> (\<exists>s. run echo [Pull, Pull, Complete 1, Pull, Get, Wake, Complete 0, Resume, Get, Wake, Resume]
            (start [req 1 5, req 2 6] None) = Some s
          \<and> enabled s = [] \<and> consumer s = Returned \<and> length (yielded s) = 2
          \<and> yielded s = [6, 5])"
proof -
  let ?reqs = "[req 1 5, req 2 6]"
  let ?evs = "[Pull, Pull, Complete 1, Pull, Get, Wake, Complete 0, Resume, Get, Wake, Resume]"
  have d: "distinct (map request_id ?reqs)" by (simp add: req_def)
  have a: "\<forall>r \<in> set ?reqs. succeeds echo r" by (simp add: req_def echo_def succeeds_def)
  have "\<exists>s. run echo ?evs (start ?reqs None) = Some s \<and> enabled s = [] \<and> yielded s = [6, 5]"
    by (simp add: engine_defs)
  then obtain s where r: "run echo ?evs (start ?reqs None) = Some s" and e: "enabled s = []"
    and y: "yielded s = [6, 5]" by blast
  from stream_requests_yields_every_result [OF d a r] e
  have "consumer s = Returned \<and> length (yielded s) = length ?reqs" by blast
  with d a r e y show ?thesis by auto
qed

lemmas prefetch_defs =
  step_prefetch_def pull_def finished_def deliver_def continue_def take_result_def
  earliest_def advance_def after_fill_def loop_head_def iterate_requests_into_def
  start_prefetch_def enabled_prefetch_def outcome_prefetch_def
  finish_def pending_future_def handle_request_def next_request_def handle_result_def
  req_def echo_def Let_def

lemma scenario_B:
  "outcome_prefetch 2 echo
     [Pull, Pull, Complete 1, Wake, Resume, Pull, Complete 0, Complete 2, Wake, Resume, Pull,
      Wake, Resume, Pull, Complete 3, Wake, Resume]
     (start_prefetch [req 1 10, req 2 20, req 3 30, req 4 40] None)
   = Some (Stopped, [20, 10, 30, 40], [])"
  by (simp add: prefetch_defs)

lemma advance_more [simp]: "todo \<noteq> [] \<Longrightarrow> advance todo s = s\<lparr>pc := SteadyWait todo\<rparr>"
  by (simp add: advance_def)

lemma advance_swap:
  "onrecv_task s \<noteq> [] \<Longrightarrow>
   advance [] s = s\<lparr>prefetch_task := onrecv_task s, onrecv_task := [],
                      pc := SteadyWait (onrecv_task s)\<rparr>"
  by (simp add: advance_def loop_head_def)

lemma advance_stop:
  "onrecv_task s = [] \<Longrightarrow> advance [] s = s\<lparr>prefetch_task := [], pc := Stopped\<rparr>"
  by (simp add: advance_def loop_head_def)

lemma advance_cases:
  obtains (more) "todo \<noteq> []" "advance todo s = s\<lparr>pc := SteadyWait todo\<rparr>"
  | (swap) "todo = []" "onrecv_task s \<noteq> []"
      "advance todo s = s\<lparr>prefetch_task := onrecv_task s, onrecv_task := [],
                            pc := SteadyWait (onrecv_task s)\<rparr>"
  | (stop) "todo = []" "onrecv_task s = []"
      "advance todo s = s\<lparr>prefetch_task := [], pc := Stopped\<rparr>"
proof (cases "todo = []")
  case False
  then show ?thesis using more by simp
next
  case True
  show ?thesis
  proof (cases "onrecv_task s = []")
    case e: True
    show ?thesis using stop [OF True e] advance_stop [OF e] True by simp
  next
    case e: False
    show ?thesis using swap [OF True e] advance_swap [OF e] True by simp
  qed
qed

lemma pull_fill_more:
  "pc s = Fill c \<Longrightarrow> source s = r # rs \<Longrightarrow> c + 1 \<noteq> N \<Longrightarrow>
   pull N s = Some (s\<lparr>source := rs, dispatched := dispatched s @ [r],
       in_flight := in_flight s @ [(length (dispatched s), r)],
       prefetch_task := prefetch_task s @ [(length (dispatched s), r)],
       pc := Fill (c + 1)\<rparr>)"
  by (simp add: pull_def iterate_requests_into_def next_request_def handle_request_def Let_def)

lemma pull_fill_full:
  "pc s = Fill c \<Longrightarrow> source s = r # rs \<Longrightarrow> c + 1 = N \<Longrightarrow>
   pull N s = Some (s\<lparr>source := rs, dispatched := dispatched s @ [r],
       in_flight := in_flight s @ [(length (dispatched s), r)],
       prefetch_task := prefetch_task s @ [(length (dispatched s), r)],
       is_req_empty := False, onrecv_task := [],
       pc := SteadyWait (prefetch_task s @ [(length (dispatched s), r)])\<rparr>)"
  by (simp add: pull_def iterate_requests_into_def next_request_def handle_request_def Let_def
      after_fill_def loop_head_def)

lemma pull_fill_empty:
  "pc s = Fill c \<Longrightarrow> source s = [] \<Longrightarrow> source_fault s = None \<Longrightarrow> prefetch_task s = [] \<Longrightarrow>
   pull N s = Some (s\<lparr>is_req_empty := True, errors_logged := errors_logged s + 1,
       pc := Stopped\<rparr>)"
  by (simp add: pull_def iterate_requests_into_def next_request_def after_fill_def)

lemma pull_fill_short:
  "pc s = Fill c \<Longrightarrow> source s = [] \<Longrightarrow> source_fault s = None \<Longrightarrow> prefetch_task s \<noteq> [] \<Longrightarrow>
   pull N s = Some (s\<lparr>is_req_empty := True, pc := ShortWait (prefetch_task s)\<rparr>)"
  by (simp add: pull_def iterate_requests_into_def next_request_def after_fill_def)

lemma pull_fill_fault:
  "pc s = Fill c \<Longrightarrow> source s = [] \<Longrightarrow> source_fault s = Some e \<Longrightarrow>
   pull N s = Some (s\<lparr>pc := Failed e\<rparr>)"
  by (simp add: pull_def iterate_requests_into_def next_request_def)

lemma pull_refill_more:
  "pc s = Refill c todo \<Longrightarrow> source s = r # rs \<Longrightarrow> c \<noteq> 0 \<Longrightarrow>
   pull N s = Some (s\<lparr>source := rs, dispatched := dispatched s @ [r],
       in_flight := in_flight s @ [(length (dispatched s), r)],
       onrecv_task := onrecv_task s @ [(length (dispatched s), r)],
       pc := Refill (c + 1) todo\<rparr>)"
  by (simp add: pull_def iterate_requests_into_def next_request_def handle_request_def Let_def)

lemma pull_refill_one:
  "pc s = Refill 0 todo \<Longrightarrow> source s = r # rs \<Longrightarrow>
   pull N s = Some (advance todo (s\<lparr>source := rs, dispatched := dispatched s @ [r],
       in_flight := in_flight s @ [(length (dispatched s), r)],
       onrecv_task := onrecv_task s @ [(length (dispatched s), r)],
       is_req_empty := False\<rparr>))"
  by (simp add: pull_def iterate_requests_into_def next_request_def handle_request_def Let_def)

lemma pull_refill_end:
  "pc s = Refill c todo \<Longrightarrow> source s = [] \<Longrightarrow> source_fault s = None \<Longrightarrow>
   pull N s = Some (advance todo (s\<lparr>is_req_empty := True\<rparr>))"
  by (simp add: pull_def iterate_requests_into_def next_request_def)

lemma pull_refill_fault:
  "pc s = Refill c todo \<Longrightarrow> source s = [] \<Longrightarrow> source_fault s = Some e \<Longrightarrow>
   pull N s = Some (s\<lparr>pc := Failed e\<rparr>)"
  by (simp add: pull_def iterate_requests_into_def next_request_def)

lemma pull_pc: "pull N s = Some s' \<Longrightarrow> (\<exists>c. pc s = Fill c) \<or> (\<exists>c todo. pc s = Refill c todo)"
  by (cases "pc s") (simp_all add: pull_def)

lemma pull_cases:
  assumes "pull N s = Some s'"
  obtains (fill_more) c r rs where "pc s = Fill c" "source s = r # rs" "c + 1 \<noteq> N"
      "s' = s\<lparr>source := rs, dispatched := dispatched s @ [r],
         in_flight := in_flight s @ [(length (dispatched s), r)],
         prefetch_task := prefetch_task s @ [(length (dispatched s), r)],
         pc := Fill (c + 1)\<rparr>"
  | (fill_full) c r rs where "pc s = Fill c" "source s = r # rs" "c + 1 = N"
      "s' = s\<lparr>source := rs, dispatched := dispatched s @ [r],
         in_flight := in_flight s @ [(length (dispatched s), r)],
         prefetch_task := prefetch_task s @ [(length (dispatched s), r)],
         is_req_empty := False, onrecv_task := [],
         pc := SteadyWait (prefetch_task s @ [(length (dispatched s), r)])\<rparr>"
  | (fill_empty) c where "pc s = Fill c" "source s = []" "source_fault s = None"
      "prefetch_task s = []"
      "s' = s\<lparr>is_req_empty := True, errors_logged := errors_logged s + 1, pc := Stopped\<rparr>"
  | (fill_short) c where "pc s = Fill c" "source s = []" "source_fault s = None"
      "prefetch_task s \<noteq> []"
      "s' = s\<lparr>is_req_empty := True, pc := ShortWait (prefetch_task s)\<rparr>"
  | (fill_fault) c e where "pc s = Fill c" "source s = []" "source_fault s = Some e"
      "s' = s\<lparr>pc := Failed e\<rparr>"
  | (refill_more) c todo r rs where "pc s = Refill c todo" "source s = r # rs" "c \<noteq> 0"
      "s' = s\<lparr>source := rs, dispatched := dispatched s @ [r],
         in_flight := in_flight s @ [(length (dispatched s), r)],
         onrecv_task := onrecv_task s @ [(length (dispatched s), r)],
         pc := Refill (c + 1) todo\<rparr>"
  | (refill_one) todo r rs where "pc s = Refill 0 todo" "source s = r # rs"
      "s' = advance todo (s\<lparr>source := rs, dispatched := dispatched s @ [r],
         in_flight := in_flight s @ [(length (dispatched s), r)],
         onrecv_task := onrecv_task s @ [(length (dispatched s), r)],
         is_req_empty := False\<rparr>)"
  | (refill_end) c todo where "pc s = Refill c todo" "source s = []" "source_fault s = None"
      "s' = advance todo (s\<lparr>is_req_empty := True\<rparr>)"
  | (refill_fault) c todo e where "pc s = Refill c todo" "source s = []"
      "source_fault s = Some e" "s' = s\<lparr>pc := Failed e\<rparr>"
proof -
  from pull_pc [OF assms] consider c where "pc s = Fill c" | c todo where "pc s = Refill c todo"
    by blast
  then show ?thesis
  proof cases
    case 1
    show ?thesis
    proof (cases "source s")
      case Nil
      show ?thesis
      proof (cases "source_fault s")
        case None
        show ?thesis
        proof (cases "prefetch_task s = []")
          case True
          show ?thesis
            by (rule fill_empty [OF 1 Nil None True
                  same_result [OF assms pull_fill_empty [OF 1 Nil None True]]])
        next
          case False
          show ?thesis
            by (rule fill_short [OF 1 Nil None False
                  same_result [OF assms pull_fill_short [OF 1 Nil None False]]])
        qed
      next
        case (Some e)
        show ?thesis
          by (rule fill_fault [OF 1 Nil Some same_result [OF assms pull_fill_fault [OF 1 Nil Some]]])
      qed
    next
      case (Cons r rs)
      show ?thesis
      proof (cases "c + 1 = N")
        case True
        show ?thesis
          by (rule fill_full [OF 1 Cons True same_result [OF assms pull_fill_full [OF 1 Cons True]]])
      next
        case False
        show ?thesis
          by (rule fill_more [OF 1 Cons False same_result [OF assms pull_fill_more [OF 1 Cons False]]])
      qed
    qed
  next
    case 2
    show ?thesis
    proof (cases "source s")
      case Nil
      show ?thesis
      proof (cases "source_fault s")
        case None
        show ?thesis
          by (rule refill_end [OF 2 Nil None same_result [OF assms pull_refill_end [OF 2 Nil None]]])
      next
        case (Some e)
        show ?thesis
          by (rule refill_fault [OF 2 Nil Some
                same_result [OF assms pull_refill_fault [OF 2 Nil Some]]])
      qed
    next
      case (Cons r rs)
      show ?thesis
      proof (cases "c = 0")
        case True
        note p = 2 [unfolded True]
        show ?thesis
          by (rule refill_one [OF p Cons same_result [OF assms pull_refill_one [OF p Cons]]])
      next
        case False
        show ?thesis
          by (rule refill_more [OF 2 Cons False
                same_result [OF assms pull_refill_more [OF 2 Cons False]]])
      qed
    qed
  qed
qed

lemma finished_cases:
  assumes "finished i s = Some s'"
  obtains f where "f \<in> set (in_flight s)" "fst f = i"
      "s' = s\<lparr>in_flight := remove1 f (in_flight s), completed := completed s @ [f]\<rparr>"
proof -
  from assms obtain f where f: "pending_future i s = Some f" and s': "s' = finish f s"
    by (auto simp: finished_def split: option.splits)
  from f have "f \<in> set (in_flight s)" "fst f = i"
    by (auto simp: pending_future_def dest: find_in_set)
  then show ?thesis using s' by (intro that [of f]) (simp_all add: finish_def)
qed

lemma earliest_Some:
  assumes "earliest done todo = Some f"
  shows "f \<in> set todo" "f \<in> set done"
  using assms find_in_set [of "\<lambda>f. f \<in> set todo" "done" f] by (simp_all add: earliest_def)

lemma deliver_short:
  "pc s = ShortWait todo \<Longrightarrow> earliest (completed s) todo = Some f \<Longrightarrow>
   deliver h s = Some (take_result h f (ShortYield (remove1 f todo)) s)"
  by (simp add: deliver_def)

lemma deliver_steady:
  "pc s = SteadyWait todo \<Longrightarrow> earliest (completed s) todo = Some f \<Longrightarrow>
   deliver h s = Some (take_result h f (SteadyYield (remove1 f todo)) s)"
  by (simp add: deliver_def)

lemma deliver_pc:
  "deliver h s = Some s' \<Longrightarrow>
   \<exists>todo f. (pc s = ShortWait todo \<or> pc s = SteadyWait todo) \<and> earliest (completed s) todo = Some f"
  by (cases "pc s") (auto simp: deliver_def split: option.splits)

lemma take_result_cases:
  obtains (result) v where "h (snd f) = Result v"
      "take_result h f k s =
         s\<lparr>consumed := consumed s @ [f], yielded := yielded s @ [handle_result v], pc := k\<rparr>"
  | (failure) e where "h (snd f) = Failure e"
      "take_result h f k s = s\<lparr>consumed := consumed s @ [f], pc := Failed e\<rparr>"
  by (cases "h (snd f)") (simp_all add: take_result_def)

lemma deliver_cases:
  assumes "deliver h s = Some s'"
  obtains (short) todo f where "pc s = ShortWait todo" "earliest (completed s) todo = Some f"
      "s' = take_result h f (ShortYield (remove1 f todo)) s"
  | (steady) todo f where "pc s = SteadyWait todo" "earliest (completed s) todo = Some f"
      "s' = take_result h f (SteadyYield (remove1 f todo)) s"
proof -
  from deliver_pc [OF assms] obtain todo f where
    p: "pc s = ShortWait todo \<or> pc s = SteadyWait todo"
    and e: "earliest (completed s) todo = Some f" by blast
  from p show ?thesis
  proof
    assume q: "pc s = ShortWait todo"
    show ?thesis by (rule short [OF q e same_result [OF assms deliver_short [OF q e]]])
  next
    assume q: "pc s = SteadyWait todo"
    show ?thesis by (rule steady [OF q e same_result [OF assms deliver_steady [OF q e]]])
  qed
qed

lemma continue_short_more:
  "pc s = ShortYield todo \<Longrightarrow> todo \<noteq> [] \<Longrightarrow> continue s = Some (s\<lparr>pc := ShortWait todo\<rparr>)"
  by (simp add: continue_def)

lemma continue_short_stop:
  "pc s = ShortYield [] \<Longrightarrow> continue s = Some (s\<lparr>pc := Stopped\<rparr>)"
  by (simp add: continue_def)

lemma continue_refill:
  "pc s = SteadyYield todo \<Longrightarrow> \<not> is_req_empty s \<Longrightarrow> continue s = Some (s\<lparr>pc := Refill 0 todo\<rparr>)"
  by (simp add: continue_def)

lemma continue_advance:
  "pc s = SteadyYield todo \<Longrightarrow> is_req_empty s \<Longrightarrow> continue s = Some (advance todo s)"
  by (simp add: continue_def)

lemma continue_pc:
  "continue s = Some s' \<Longrightarrow> (\<exists>todo. pc s = ShortYield todo) \<or> (\<exists>todo. pc s = SteadyYield todo)"
  by (cases "pc s") (simp_all add: continue_def)

lemma continue_cases:
  assumes "continue s = Some s'"
  obtains (short_more) todo where "pc s = ShortYield todo" "todo \<noteq> []"
      "s' = s\<lparr>pc := ShortWait todo\<rparr>"
  | (short_stop) "pc s = ShortYield []" "s' = s\<lparr>pc := Stopped\<rparr>"
  | (refill) todo where "pc s = SteadyYield todo" "\<not> is_req_empty s"
      "s' = s\<lparr>pc := Refill 0 todo\<rparr>"
  | (advance) todo where "pc s = SteadyYield todo" "is_req_empty s" "s' = advance todo s"
proof -
  from continue_pc [OF assms] consider todo where "pc s = ShortYield todo"
    | todo where "pc s = SteadyYield todo" by blast
  then show ?thesis
  proof cases
    case 1
    show ?thesis
    proof (cases "todo = []")
      case True
      note p = 1 [unfolded True]
      show ?thesis by (rule short_stop [OF p same_result [OF assms continue_short_stop [OF p]]])
    next
      case False
      show ?thesis
        by (rule short_more [OF 1 False same_result [OF assms continue_short_more [OF 1 False]]])
    qed
  next
    case 2
    show ?thesis
    proof (cases "is_req_empty s")
      case True
      show ?thesis
        by (rule advance [OF 2 True same_result [OF assms continue_advance [OF 2 True]]])
    next
      case False
      show ?thesis
        by (rule refill [OF 2 False same_result [OF assms continue_refill [OF 2 False]]])
    qed
  qed
qed

lemma advance_fields [simp]:
  "source (advance todo s) = source s"
  "source_fault (advance todo s) = source_fault s"
  "dispatched (advance todo s) = dispatched s"
  "in_flight (advance todo s) = in_flight s"
  "completed (advance todo s) = completed s"
  "consumed (advance todo s) = consumed s"
  "yielded (advance todo s) = yielded s"
  "eoi_calls (advance todo s) = eoi_calls s"
  "is_req_empty (advance todo s) = is_req_empty s"
  "errors_logged (advance todo s) = errors_logged s"
  by (cases rule: advance_cases [of todo s]; simp)+

lemma take_result_fields [simp]:
  "source (take_result h f k s) = source s"
  "source_fault (take_result h f k s) = source_fault s"
  "dispatched (take_result h f k s) = dispatched s"
  "in_flight (take_result h f k s) = in_flight s"
  "completed (take_result h f k s) = completed s"
  "consumed (take_result h f k s) = consumed s @ [f]"
  "eoi_calls (take_result h f k s) = eoi_calls s"
  "is_req_empty (take_result h f k s) = is_req_empty s"
  "errors_logged (take_result h f k s) = errors_logged s"
  "prefetch_task (take_result h f k s) = prefetch_task s"
  "onrecv_task (take_result h f k s) = onrecv_task s"
  by (cases rule: take_result_cases [of h f k s]; simp)+











lemma pull_enabled:
  "(\<exists>c. pc s = Fill c) \<or> (\<exists>c todo. pc s = Refill c todo) \<Longrightarrow> \<exists>s'. pull N s = Some s'"
  by (auto simp: pull_def)

lemma enabled_step_prefetch:
  assumes "ev \<in> set (enabled_prefetch s)"
  shows "\<exists>s'. step_prefetch N h ev s = Some s'"
proof -
  from assms consider (p) "ev \<in> set (pc_events (pc s) (completed s))"
    | (c) f where "f \<in> set (in_flight s)" "ev = Complete (fst f)"
    by (auto simp: enabled_prefetch_def)
  then show ?thesis
  proof cases
    case c
    then have "pending_future (fst f) s \<noteq> None"
      unfolding pending_future_def find_None_iff by blast
    with c show ?thesis by (auto simp: step_prefetch_def finished_def)
  next
    case p
    show ?thesis
    proof (cases "pc s")
      case (ShortWait todo)
      with p show ?thesis
        by (cases "earliest (completed s) todo") (simp_all add: step_prefetch_def deliver_def)
    next
      case (SteadyWait todo)
      with p show ?thesis
        by (cases "earliest (completed s) todo") (simp_all add: step_prefetch_def deliver_def)
    qed (use p in \<open>simp_all add: step_prefetch_def pull_def continue_def\<close>)
  qed
qed



lemma part_okI1:
  "\<not> failed (pc s) \<Longrightarrow> mset (consumed s) + mset (waiting_of s) = mset (futures (dispatched s))
   \<Longrightarrow> part_ok s"
  by (auto simp: part_ok_def)

lemma part_okI2:
  "failed (pc s) \<Longrightarrow> mset (consumed s) + mset rest = mset (futures (dispatched s)) \<Longrightarrow> part_ok s"
  by (auto simp: part_ok_def)

lemma part_okD:
  "part_ok s \<Longrightarrow> \<not> failed (pc s) \<Longrightarrow>
   mset (consumed s) + mset (waiting_of s) = mset (futures (dispatched s))"
  by (auto simp: part_ok_def)

lemma advance_pc [simp]: "\<not> failed (pc (advance todo s))"
  by (cases rule: advance_cases [of todo s]) simp_all

lemma waiting_advance [simp]: "waiting_of (advance todo s) = todo @ onrecv_task s"
  by (cases rule: advance_cases [of todo s]) (simp_all add: waiting_of_def)

lemma waiting_advance_unfolded [simp]:
  "waiting (pc (advance todo s)) (prefetch_task (advance todo s)) (onrecv_task (advance todo s))
   = todo @ onrecv_task s"
  using waiting_advance [of todo s] by (simp only: waiting_of_def)

lemma part_ok_pull:
  assumes "part_ok s" "pull N s = Some s'"
  shows "part_ok s'"
proof -
  from pull_pc [OF assms(2)] have nf: "\<not> failed (pc s)" by auto
  note d = part_okD [OF assms(1) nf]
  from assms(2) show ?thesis
  proof (cases rule: pull_cases)
    case (fill_fault c e)
    with d show ?thesis by (intro part_okI2 [where rest = "waiting_of s"]) simp_all
  next
    case (refill_fault c todo e)
    with d show ?thesis by (intro part_okI2 [where rest = "waiting_of s"]) simp_all
  qed (use d in \<open>auto intro!: part_okI1 simp: waiting_of_def futures_snoc\<close>)
qed

lemma part_ok_finished:
  assumes "part_ok s" "finished i s = Some s'"
  shows "part_ok s'"
  using assms(2,1) by (cases rule: finished_cases) (auto simp: part_ok_def waiting_of_def)

lemma mset_take:
  "f \<in> set todo \<Longrightarrow> mset (cs @ [f]) + mset (remove1 f todo @ t) = mset cs + mset (todo @ t)"
  by (induction todo) auto

lemma part_ok_take:
  assumes "part_ok s" "\<not> failed (pc s)" "waiting_of s = todo @ t" "f \<in> set todo"
    "waiting k (prefetch_task s) (onrecv_task s) = remove1 f todo @ t" "\<not> failed k"
  shows "part_ok (take_result h f k s)"
proof -
  from part_okD [OF assms(1,2)] assms(3) mset_take [OF assms(4), of "consumed s" t]
  have m: "mset (consumed s @ [f]) + mset (remove1 f todo @ t) = mset (futures (dispatched s))"
    by simp
  show ?thesis
  proof (cases rule: take_result_cases [of h f k s])
    case (result v)
    with m assms(5,6) show ?thesis
      by (intro part_okI1) (simp_all add: waiting_of_def)
  next
    case (failure e)
    with m show ?thesis
      by (intro part_okI2 [where rest = "remove1 f todo @ t"]) simp_all
  qed
qed

lemma part_ok_deliver:
  assumes "part_ok s" "deliver h s = Some s'"
  shows "part_ok s'"
  using assms(2)
proof (cases rule: deliver_cases)
  case (short todo f)
  show ?thesis unfolding short(3)
    using part_ok_take [OF assms(1), of todo "[]" f "ShortYield (remove1 f todo)" h]
      short(1) earliest_Some(1) [OF short(2)]
    by (simp add: waiting_of_def)
next
  case (steady todo f)
  show ?thesis unfolding steady(3)
    using part_ok_take [OF assms(1), of todo "onrecv_task s" f "SteadyYield (remove1 f todo)" h]
      steady(1) earliest_Some(1) [OF steady(2)]
    by (simp add: waiting_of_def)
qed

lemma part_ok_continue:
  assumes "part_ok s" "continue s = Some s'"
  shows "part_ok s'"
proof -
  from continue_pc [OF assms(2)] have nf: "\<not> failed (pc s)" by auto
  note d = part_okD [OF assms(1) nf]
  from assms(2) show ?thesis
    by (cases rule: continue_cases)
      (use d in \<open>auto intro!: part_okI1 simp: waiting_of_def\<close>)
qed

lemma part_ok_step:
  assumes "part_ok s" "step_prefetch N h ev s = Some s'"
  shows "part_ok s'"
  using assms
  by (cases ev)
    (auto simp: step_prefetch_def
      intro: part_ok_pull part_ok_finished part_ok_deliver part_ok_continue)

lemma env_ok_pull:
  assumes "env_ok reqs fault s" "pull N s = Some s'"
  shows "env_ok reqs fault s'"
  using assms(2,1) by (cases rule: pull_cases) (auto simp: env_ok_def futures_snoc)

lemma env_ok_finished:
  assumes "env_ok reqs fault s" "finished i s = Some s'"
  shows "env_ok reqs fault s'"
  using assms(2)
proof (cases rule: finished_cases)
  case (1 f)
  from assms(1) mset_finish [OF 1(1), of "completed s"] show ?thesis
    unfolding 1(3) by (simp add: env_ok_def)
qed

lemma env_ok_deliver:
  assumes "env_ok reqs fault s" "deliver h s = Some s'"
  shows "env_ok reqs fault s'"
  using assms(2,1) by (cases rule: deliver_cases) (auto simp: env_ok_def)

lemma env_ok_continue:
  assumes "env_ok reqs fault s" "continue s = Some s'"
  shows "env_ok reqs fault s'"
  using assms(2,1) by (cases rule: continue_cases) (auto simp: env_ok_def)

lemma env_ok_step_prefetch:
  assumes "env_ok reqs fault s" "step_prefetch N h ev s = Some s'"
  shows "env_ok reqs fault s'"
  using assms
  by (cases ev)
    (auto simp: step_prefetch_def
      intro: env_ok_pull env_ok_finished env_ok_deliver env_ok_continue)

lemma window_ok_advance [simp]: "window_ok (pc (advance todo s))"
  by (cases rule: advance_cases [of todo s]) simp_all

lemma after_end_advance [simp]:
  "after_end (pc (advance todo s)) \<longleftrightarrow> todo = [] \<and> onrecv_task s = []"
  by (cases rule: advance_cases [of todo s]) simp_all

lemma src_ok_pull:
  assumes "src_ok s" "pull N s = Some s'"
  shows "src_ok s'"
  using assms(2,1) by (cases rule: pull_cases) (auto simp: src_ok_def)

lemma src_ok_finished:
  assumes "src_ok s" "finished i s = Some s'"
  shows "src_ok s'"
  using assms(2,1) by (cases rule: finished_cases) (auto simp: src_ok_def)

lemma take_result_pc:
  "pc (take_result h f k s) = k \<or> (\<exists>e. pc (take_result h f k s) = Failed e)"
  by (cases rule: take_result_cases [of h f k s]) simp_all

lemma src_ok_deliver:
  assumes "src_ok s" "deliver h s = Some s'"
  shows "src_ok s'"
  using assms(2)
proof (cases rule: deliver_cases)
  case (short todo f)
  with assms(1) take_result_pc [of h f "ShortYield (remove1 f todo)" s] show ?thesis
    by (auto simp: src_ok_def)
next
  case (steady todo f)
  with assms(1) take_result_pc [of h f "SteadyYield (remove1 f todo)" s] show ?thesis
    by (auto simp: src_ok_def)
qed

lemma src_ok_continue:
  assumes "src_ok s" "continue s = Some s'"
  shows "src_ok s'"
  using assms(2,1) by (cases rule: continue_cases) (auto simp: src_ok_def)

lemma src_ok_step:
  assumes "src_ok s" "step_prefetch N h ev s = Some s'"
  shows "src_ok s'"
  using assms
  by (cases ev)
    (auto simp: step_prefetch_def intro: src_ok_pull src_ok_finished src_ok_deliver src_ok_continue)

lemma pc_cap_le: "pc_cap p N d y \<Longrightarrow> d \<le> N + y"
  by (cases p) simp_all

lemma pc_cap_advance [simp]: "pc_cap (pc (advance todo s)) N d y \<longleftrightarrow> d \<le> N + y"
  by (cases rule: advance_cases [of todo s]) simp_all

lemma cap_ok_pull:
  assumes "cap_ok N s" "pull N s = Some s'"
  shows "cap_ok N s'"
  using assms(2,1) by (cases rule: pull_cases) (auto simp: cap_ok_def)

lemma cap_ok_finished:
  assumes "cap_ok N s" "finished i s = Some s'"
  shows "cap_ok N s'"
  using assms(2,1) by (cases rule: finished_cases) (auto simp: cap_ok_def)

lemma cap_ok_deliver:
  assumes "cap_ok N s" "deliver h s = Some s'"
  shows "cap_ok N s'"
  using assms(2)
proof (cases rule: deliver_cases)
  case (short todo f)
  with assms(1) show ?thesis
    by (cases rule: take_result_cases [of h f "ShortYield (remove1 f todo)" s])
      (auto simp: cap_ok_def)
next
  case (steady todo f)
  with assms(1) show ?thesis
    by (cases rule: take_result_cases [of h f "SteadyYield (remove1 f todo)" s])
      (auto simp: cap_ok_def)
qed

lemma cap_ok_continue:
  assumes "cap_ok N s" "continue s = Some s'"
  shows "cap_ok N s'"
  using assms(2,1) by (cases rule: continue_cases) (auto simp: cap_ok_def)

lemma cap_ok_step:
  assumes "cap_ok N s" "step_prefetch N h ev s = Some s'"
  shows "cap_ok N s'"
  using assms
  by (cases ev)
    (auto simp: step_prefetch_def intro: cap_ok_pull cap_ok_finished cap_ok_deliver cap_ok_continue)

lemma cap_ok_run:
  assumes "cap_ok N s" "run_prefetch N h evs s = Some s'"
  shows "cap_ok N s'"
  using assms
proof (induction evs arbitrary: s)
  case Nil
  then show ?case by simp
next
  case (Cons ev evs)
  then obtain s1 where s1: "step_prefetch N h ev s = Some s1"
    and r: "run_prefetch N h evs s1 = Some s'"
    by (auto split: option.splits)
  from Cons.IH [OF cap_ok_step [OF Cons.prems(1) s1] r] show ?case .
qed

lemma cap_ok_start: "1 \<le> N \<Longrightarrow> cap_ok N (start_prefetch reqs fault)"
  by (simp add: cap_ok_def start_prefetch_def)

lemma prefetch_cap:
  assumes "1 \<le> N" "run_prefetch N h evs (start_prefetch reqs fault) = Some s"
  shows "length (dispatched s) \<le> N + length (yielded s)"
  using cap_ok_run [OF cap_ok_start [OF assms(1)] assms(2)] pc_cap_le by (auto simp: cap_ok_def)

lemma advance_not_failed [simp]: "pc (advance todo s) \<noteq> Failed e"
  using advance_pc [of todo s] by (cases "pc (advance todo s)") simp_all

lemma pyield_ok_all:
  assumes "pyield_ok h s" "\<not> failed (pc s)"
  shows "\<forall>f \<in> set (consumed s). succeeded h f"
proof (cases "consumed s" rule: rev_cases)
  case Nil
  then show ?thesis by simp
next
  case (snoc fs f)
  with assms show ?thesis by (auto simp: pyield_ok_def)
qed

lemma pyield_ok_pull:
  assumes "pyield_ok h s" "pull N s = Some s'"
  shows "pyield_ok h s'"
  using assms(2,1) by (cases rule: pull_cases) (auto simp: pyield_ok_def)

lemma pyield_ok_finished:
  assumes "pyield_ok h s" "finished i s = Some s'"
  shows "pyield_ok h s'"
  using assms(2,1) by (cases rule: finished_cases) (auto simp: pyield_ok_def)

lemma pyield_ok_take:
  assumes "pyield_ok h s" "\<not> failed (pc s)" "\<not> failed k"
  shows "pyield_ok h (take_result h f k s)"
proof -
  note all = pyield_ok_all [OF assms(1,2)]
  from assms(1) have y: "yielded s = results_of h (consumed s)" by (simp add: pyield_ok_def)
  show ?thesis
  proof (cases rule: take_result_cases [of h f k s])
    case (result v)
    with all y assms(3) show ?thesis
      by (cases k) (auto simp: pyield_ok_def results_of_snoc succeeded_def)
  next
    case (failure e)
    with all y show ?thesis
      by (auto simp: pyield_ok_def results_of_snoc succeeded_def)
  qed
qed

lemma pyield_ok_deliver:
  assumes "pyield_ok h s" "deliver h s = Some s'"
  shows "pyield_ok h s'"
  using assms(2)
proof (cases rule: deliver_cases)
  case (short todo f)
  with pyield_ok_take [OF assms(1), of "ShortYield (remove1 f todo)" f] show ?thesis by simp
next
  case (steady todo f)
  with pyield_ok_take [OF assms(1), of "SteadyYield (remove1 f todo)" f] show ?thesis by simp
qed

lemma pyield_ok_continue:
  assumes "pyield_ok h s" "continue s = Some s'"
  shows "pyield_ok h s'"
  using assms(2,1)
  by (cases rule: continue_cases) (auto simp: pyield_ok_def)

lemma pyield_ok_step:
  assumes "pyield_ok h s" "step_prefetch N h ev s = Some s'"
  shows "pyield_ok h s'"
  using assms
  by (cases ev)
    (auto simp: step_prefetch_def
      intro: pyield_ok_pull pyield_ok_finished pyield_ok_deliver pyield_ok_continue)

lemma eoi_calls_step_prefetch:
  assumes "step_prefetch N h ev s = Some s'"
  shows "eoi_calls s' = eoi_calls s"
proof (cases ev)
  case Pull
  with assms have "pull N s = Some s'" by (simp add: step_prefetch_def)
  then show ?thesis by (cases rule: pull_cases) simp_all
next
  case (Complete i)
  with assms have "finished i s = Some s'" by (simp add: step_prefetch_def)
  then show ?thesis by (cases rule: finished_cases) simp_all
next
  case Get
  with assms show ?thesis by (simp add: step_prefetch_def)
next
  case Wake
  with assms have "deliver h s = Some s'" by (simp add: step_prefetch_def)
  then show ?thesis by (cases rule: deliver_cases) simp_all
next
  case Resume
  with assms have "continue s = Some s'" by (simp add: step_prefetch_def)
  then show ?thesis by (cases rule: continue_cases) simp_all
qed

lemma pinv_start: "pinv reqs fault h (start_prefetch reqs fault)"
  by (simp add: pinv_def env_ok_def part_ok_def src_ok_def pyield_ok_def start_prefetch_def
      futures_Nil results_of_def waiting_of_def)

lemma pinv_step:
  assumes "pinv reqs fault h s" "step_prefetch N h ev s = Some s'"
  shows "pinv reqs fault h s'"
  using assms eoi_calls_step_prefetch [OF assms(2)]
  by (auto simp: pinv_def intro: env_ok_step_prefetch part_ok_step src_ok_step pyield_ok_step)

lemma pinv_run:
  assumes "pinv reqs fault h s" "run_prefetch N h evs s = Some s'"
  shows "pinv reqs fault h s'"
  using assms
proof (induction evs arbitrary: s)
  case Nil
  then show ?case by simp
next
  case (Cons ev evs)
  then obtain s1 where s1: "step_prefetch N h ev s = Some s1"
    and r: "run_prefetch N h evs s1 = Some s'"
    by (auto split: option.splits)
  from Cons.IH [OF pinv_step [OF Cons.prems(1) s1] r] show ?case .
qed

lemma pinv_reachable:
  "run_prefetch N h evs (start_prefetch reqs fault) = Some s \<Longrightarrow> pinv reqs fault h s"
  using pinv_start pinv_run by blast

lemma part_ok_sets:
  assumes "part_ok s"
  shows "distinct (consumed s)" "set (consumed s) \<subseteq> set (futures (dispatched s))"
proof -
  from assms obtain rest where
    m: "mset (consumed s @ rest) = mset (futures (dispatched s))"
    by (auto simp: part_ok_def)
  then have "distinct (consumed s @ rest)"
    using distinct_futures mset_eq_imp_distinct_iff by blast
  then show "distinct (consumed s)" by simp
  from m have "set (consumed s @ rest) = set (futures (dispatched s))" by (rule mset_eq_setD)
  then show "set (consumed s) \<subseteq> set (futures (dispatched s))" by auto
qed

lemma part_ok_waiting:
  assumes "part_ok s" "\<not> failed (pc s)"
  shows "set (futures (dispatched s)) = set (consumed s) \<union> set (waiting_of s)"
    "set (consumed s) \<inter> set (waiting_of s) = {}"
proof -
  from part_okD [OF assms] have
    m: "mset (consumed s @ waiting_of s) = mset (futures (dispatched s))" by simp
  then have "distinct (consumed s @ waiting_of s)"
    using distinct_futures mset_eq_imp_distinct_iff by blast
  then show "set (consumed s) \<inter> set (waiting_of s) = {}" by simp
  from m have "set (consumed s @ waiting_of s) = set (futures (dispatched s))"
    by (rule mset_eq_setD)
  then show "set (futures (dispatched s)) = set (consumed s) \<union> set (waiting_of s)" by auto
qed

lemma env_ok_all_completed:
  assumes "env_ok reqs fault s" "in_flight s = []"
  shows "set (completed s) = set (futures (dispatched s))" "distinct (completed s)"
proof -
  from assms have m: "mset (completed s) = mset (futures (dispatched s))"
    by (simp add: env_ok_def)
  then show "set (completed s) = set (futures (dispatched s))" by (rule mset_eq_setD)
  from m show "distinct (completed s)"
    using distinct_futures mset_eq_imp_distinct_iff by blast
qed

lemma earliest_None: "earliest done todo = None \<Longrightarrow> f \<in> set todo \<Longrightarrow> f \<notin> set done"
  unfolding earliest_def find_None_iff by blast

lemma quiescent_not_waiting:
  assumes "pinv reqs fault h s" "in_flight s = []" "pc s = ShortWait todo \<or> pc s = SteadyWait todo"
  shows "earliest (completed s) todo \<noteq> None"
proof
  assume n: "earliest (completed s) todo = None"
  from assms(1) have env: "env_ok reqs fault s" and pa: "part_ok s" and sr: "src_ok s"
    by (simp_all add: pinv_def)
  from assms(3) sr have ne: "todo \<noteq> []" by (auto simp: src_ok_def)
  from assms(3) have nf: "\<not> failed (pc s)" and w: "set todo \<subseteq> set (waiting_of s)"
    by (auto simp: waiting_of_def)
  from ne have "hd todo \<in> set todo" by simp
  moreover from this w part_ok_waiting(1) [OF pa nf] env_ok_all_completed(1) [OF env assms(2)]
  have "hd todo \<in> set (completed s)" by auto
  ultimately show False using earliest_None [OF n] by blast
qed

lemma pc_events_Nil:
  assumes "pc_events p done = []"
  shows "p = Stopped \<or> failed p
    \<or> (\<exists>todo. (p = ShortWait todo \<or> p = SteadyWait todo) \<and> earliest done todo = None)"
  using assms by (cases p) (auto split: option.splits)

lemma quiescent_prefetch:
  assumes i: "pinv reqs None h s"
    and ok: "\<forall>r \<in> set reqs. succeeds h r"
    and q: "enabled_prefetch s = []"
  shows "pc s = Stopped \<and> dispatched s = reqs \<and> mset (consumed s) = mset (futures reqs)
     \<and> map Result (yielded s) = map (\<lambda>f. h (snd f)) (consumed s)"
proof -
  from i have env: "env_ok reqs None s" and pa: "part_ok s" and sr: "src_ok s"
    and yi: "pyield_ok h s" by (simp_all add: pinv_def)
  from q have ev: "pc_events (pc s) (completed s) = []" and fl: "in_flight s = []"
    by (simp_all add: enabled_prefetch_def)
  from env have sub: "set (dispatched s) \<subseteq> set reqs" by (auto simp: env_ok_def)
  have good: "\<forall>f \<in> set (consumed s). succeeds h (snd f)"
    using part_ok_sets(2) [OF pa] futures_snd sub ok by blast
  have nofail: "\<not> failed (pc s)"
  proof
    assume "failed (pc s)"
    then obtain e where e: "pc s = Failed e" by (cases "pc s") simp_all
    with yi env have ne: "consumed s \<noteq> []" and f: "h (snd (last (consumed s))) = Failure e"
      by (auto simp: pyield_ok_def env_ok_def)
    from ne have "last (consumed s) \<in> set (consumed s)" by simp
    with good have "succeeds h (snd (last (consumed s)))" by blast
    with f show False by (simp add: succeeds_def)
  qed
  from pc_events_Nil [OF ev] nofail quiescent_not_waiting [OF i fl]
  have st: "pc s = Stopped" by blast
  with sr have "is_req_empty s" by (simp add: src_ok_def)
  with sr have "source s = []" by (simp add: src_ok_def)
  with env have d: "dispatched s = reqs" by (simp add: env_ok_def)
  from part_okD [OF pa nofail] st d have m: "mset (consumed s) = mset (futures reqs)"
    by (simp add: waiting_of_def)
  from yi have "map Result (yielded s) = map (\<lambda>f. h (snd f)) (consumed s)"
    using results_of_succeed [OF good] by (simp add: pyield_ok_def)
  with st d m show ?thesis by simp
qed



lemma advance_filling [simp]: "\<not> filling (pc (advance todo s))"
  by (cases rule: advance_cases [of todo s]) simp_all
















text \<open>
  C9, as stated, fails: no execution of the prefetch engine has more than \<open>N\<close> requests
  dispatched and not yet yielded. The first window has \<open>N\<close> requests, and every later
  dispatch (line 202) comes after a \<^verbatim>\<open>yield\<close> (line 200) that no dispatch has
  followed yet.
\<close>

theorem no_execution_exceeds_window:
  "\<not> (\<exists>N reqs h evs s. 1 \<le> N \<and> N < length reqs
        \<and> run_prefetch N h evs (start_prefetch reqs None) = Some (s :: (nat, nat) pstate)
        \<and> N < length (dispatched s) - length (yielded s))"
proof
  assume "\<exists>N reqs h evs s. 1 \<le> N \<and> N < length reqs
        \<and> run_prefetch N h evs (start_prefetch reqs None) = Some (s :: (nat, nat) pstate)
        \<and> N < length (dispatched s) - length (yielded s)"
  then obtain N reqs h evs and s :: "(nat, nat) pstate" where n: "1 \<le> N"
    and r: "run_prefetch N h evs (start_prefetch reqs None) = Some s"
    and x: "N < length (dispatched s) - length (yielded s)" by blast
  from prefetch_cap [OF n r] x show False by arith
qed

text \<open>
  C9 (amended). In every execution of the prefetch engine with window size \<open>N \<ge> 1\<close>,
  whatever the input and the iterator, the number of requests dispatched and not yet
  yielded is at most \<open>N\<close> at every moment: the window size is a hard bound.
\<close>

theorem prefetch_window_is_hard_cap:
  assumes "1 \<le> N" and "run_prefetch N h evs (start_prefetch reqs fault) = Some s"
  shows "length (dispatched s) - length (yielded s) \<le> N"
  using prefetch_cap [OF assms] by arith

text \<open>Window 2, four requests, just after the first refill: three dispatched, one yielded.\<close>

theorem prefetch_window_is_hard_cap_witness:
  "(1::nat) \<le> 2
   \<and> (\<exists>s. run_prefetch 2 echo [Pull, Pull, Complete 1, Wake, Resume, Pull]
            (start_prefetch [req 1 10, req 2 20, req 3 30, req 4 40] None) = Some s
          \<and> length (dispatched s) = 3 \<and> length (yielded s) = 1
          \<and> length (dispatched s) - length (yielded s) \<le> 2)"
proof -
  let ?reqs = "[req 1 10, req 2 20, req 3 30, req 4 40]"
  let ?evs = "[Pull, Pull, Complete 1, Wake, Resume, Pull]"
  have n: "(1::nat) \<le> 2" by simp
  have "\<exists>s. run_prefetch 2 echo ?evs (start_prefetch ?reqs None) = Some s
      \<and> length (dispatched s) = 3 \<and> length (yielded s) = 1"
    by (simp add: prefetch_defs)
  then obtain s where r: "run_prefetch 2 echo ?evs (start_prefetch ?reqs None) = Some s"
    and d: "length (dispatched s) = 3" "length (yielded s) = 1" by blast
  from prefetch_window_is_hard_cap [OF n r] r d n show ?thesis by blast
qed

lemma step_empty_start:
  assumes "step_prefetch N h ev (start_prefetch [] None) = Some s"
  shows "ev = Pull \<and> pc s = Stopped \<and> yielded s = [] \<and> errors_logged s = 1
    \<and> in_flight s = []"
proof (cases ev)
  case Pull
  with assms show ?thesis
    by (auto simp add: step_prefetch_def pull_def iterate_requests_into_def next_request_def
        after_fill_def start_prefetch_def)
next
  case (Complete i)
  with assms show ?thesis
    by (simp add: step_prefetch_def finished_def pending_future_def start_prefetch_def)
next
  case Get
  with assms show ?thesis by (simp add: step_prefetch_def)
next
  case Wake
  with assms show ?thesis by (simp add: step_prefetch_def deliver_def start_prefetch_def)
next
  case Resume
  with assms show ?thesis by (simp add: step_prefetch_def continue_def start_prefetch_def)
qed

lemma enabled_prefetch_complete: "ev \<in> set (enabled_prefetch s) \<longleftrightarrow> step_prefetch N h ev s \<noteq> None"
proof
  assume "ev \<in> set (enabled_prefetch s)"
  then show "step_prefetch N h ev s \<noteq> None" using enabled_step_prefetch by fastforce
next
  assume a: "step_prefetch N h ev s \<noteq> None"
  then obtain s' where s': "step_prefetch N h ev s = Some s'" by auto
  show "ev \<in> set (enabled_prefetch s)"
  proof (cases ev)
    case Pull
    with s' have "pull N s = Some s'" by (simp add: step_prefetch_def)
    from pull_pc [OF this] show ?thesis using Pull by (auto simp: enabled_prefetch_def)
  next
    case (Complete i)
    with s' have "finished i s = Some s'" by (simp add: step_prefetch_def)
    then show ?thesis using Complete
      by (cases rule: finished_cases) (force simp: enabled_prefetch_def)
  next
    case Get
    with s' show ?thesis by (simp add: step_prefetch_def)
  next
    case Wake
    with s' have "deliver h s = Some s'" by (simp add: step_prefetch_def)
    from deliver_pc [OF this] show ?thesis using Wake by (auto simp: enabled_prefetch_def)
  next
    case Resume
    with s' have "continue s = Some s'" by (simp add: step_prefetch_def)
    from continue_pc [OF this] show ?thesis using Resume by (auto simp: enabled_prefetch_def)
  qed
qed

lemma stuck_prefetch:
  assumes "enabled_prefetch s = []" "run_prefetch N h evs s = Some s'"
  shows "evs = []"
proof (cases evs)
  case (Cons ev evs')
  with assms(2) have "step_prefetch N h ev s \<noteq> None" by (auto split: option.splits)
  then have "ev \<in> set (enabled_prefetch s)"
    using enabled_prefetch_complete [of ev s N h] by blast
  with assms(1) show ?thesis by simp
qed simp

text \<open>
  C6. On the empty input the prefetch engine, whatever its window size, can do one thing
  only: the first \<^verbatim>\<open>iterate_requests\<close> finds the iterator exhausted, the error is logged
  once and the generator returns (line 176), having yielded nothing. After that nothing
  can happen. No state of such an execution is one ended by an exception.
\<close>

theorem prefetch_empty_input:
  assumes "run_prefetch N h evs (start_prefetch [] None) = Some s"
  shows "yielded s = [] \<and> \<not> failed (pc s)
     \<and> (evs = [] \<and> enabled_prefetch s = [Pull] \<and> errors_logged s = 0
         \<or> evs = [Pull] \<and> pc s = Stopped \<and> errors_logged s = 1 \<and> enabled_prefetch s = [])"
proof (cases evs)
  case Nil
  with assms have "s = start_prefetch [] None" by simp
  with Nil show ?thesis by (simp add: start_prefetch_def enabled_prefetch_def)
next
  case (Cons ev evs')
  with assms obtain s1 where s1: "step_prefetch N h ev (start_prefetch [] None) = Some s1"
    and r: "run_prefetch N h evs' s1 = Some s"
    by (auto split: option.splits)
  note f = step_empty_start [OF s1]
  then have q: "enabled_prefetch s1 = []" by (simp add: enabled_prefetch_def)
  from stuck_prefetch [OF q r] have e: "evs' = []" .
  with r have "s = s1" by simp
  with f q e Cons show ?thesis by simp
qed

text \<open>Scenario C of the specification: the empty input with window size 3.\<close>

theorem prefetch_empty_input_witness:
  "\<exists>s. run_prefetch 3 echo [Pull] (start_prefetch [] None) = Some s
     \<and> yielded s = [] \<and> pc s = Stopped \<and> errors_logged s = 1 \<and> enabled_prefetch s = []"
proof -
  have "\<exists>s. run_prefetch 3 echo [Pull] (start_prefetch [] None) = Some s"
    by (simp add: prefetch_defs)
  then obtain s where r: "run_prefetch 3 echo [Pull] (start_prefetch [] None) = Some s" by blast
  from prefetch_empty_input [OF r] r show ?thesis by auto
qed

text \<open>
  C7. The prefetch engine has no call of \<^verbatim>\<open>_handle_end_of_iter\<close>: in every execution,
  on every input, the number of calls stays 0, also when the iterator is exhausted and
  the generator has returned.
\<close>

theorem prefetch_never_signals_end_of_iter:
  assumes "run_prefetch N h evs (start_prefetch reqs fault) = Some s"
  shows "eoi_calls s = 0"
  using pinv_reachable [OF assms] by (simp add: pinv_def)

text \<open>One request, window size 1, run to the end.\<close>

theorem prefetch_never_signals_end_of_iter_witness:
  "\<exists>s. run_prefetch 1 echo [Pull, Complete 0, Wake, Resume, Pull] (start_prefetch [req 1 5] None)
        = Some s
     \<and> enabled_prefetch s = [] \<and> pc s = Stopped \<and> source s = [] \<and> yielded s = [5]
     \<and> eoi_calls s = 0"
proof -
  let ?evs = "[Pull, Complete 0, Wake, Resume, Pull]"
  have "\<exists>s. run_prefetch 1 echo ?evs (start_prefetch [req 1 5] None) = Some s
      \<and> enabled_prefetch s = [] \<and> pc s = Stopped \<and> source s = [] \<and> yielded s = [5]"
    by (simp add: prefetch_defs)
  then obtain s where r: "run_prefetch 1 echo ?evs (start_prefetch [req 1 5] None) = Some s"
    and e: "enabled_prefetch s = []" "pc s = Stopped" "source s = []" "yielded s = [5]" by blast
  from prefetch_never_signals_end_of_iter [OF r] r e show ?thesis by blast
qed

lemma quiet_step:
  assumes "step h ev s = Some s'" "ev \<noteq> Wake"
  shows "consumed s' = consumed s \<and> yielded s' = yielded s"
proof (cases ev)
  case Pull
  with assms have "iterate_requests s = Some s'" by (simp add: step_def)
  then show ?thesis by (cases rule: iterate_requests_cases) simp_all
next
  case (Complete i)
  with assms have "complete i s = Some s'" by (simp add: step_def)
  then show ?thesis by (cases rule: complete_cases) simp_all
next
  case Get
  with assms have "queue_get s = Some s'" by (simp add: step_def)
  then show ?thesis by (cases rule: queue_get_cases) simp_all
next
  case Wake
  with assms show ?thesis by simp
next
  case Resume
  with assms have "resume s = Some s'" by (simp add: step_def)
  then show ?thesis by (cases rule: resume_cases) simp_all
qed



lemma quiet_step_prefetch:
  assumes "step_prefetch N h ev s = Some s'" "ev \<noteq> Wake"
  shows "consumed s' = consumed s \<and> yielded s' = yielded s"
proof (cases ev)
  case Pull
  with assms have "pull N s = Some s'" by (simp add: step_prefetch_def)
  then show ?thesis by (cases rule: pull_cases) simp_all
next
  case (Complete i)
  with assms have "finished i s = Some s'" by (simp add: step_prefetch_def)
  then show ?thesis by (cases rule: finished_cases) simp_all
next
  case Get
  with assms show ?thesis by (simp add: step_prefetch_def)
next
  case Wake
  with assms show ?thesis by simp
next
  case Resume
  with assms have "continue s = Some s'" by (simp add: step_prefetch_def)
  then show ?thesis by (cases rule: continue_cases) simp_all
qed










lemma never_returns_on_fault:
  assumes "inv reqs (Some e) h s"
  shows "producer s \<noteq> Finished" "\<not> all_requests_handled s" "consumer s \<noteq> Returned"
proof -
  from assms have env: "env_ok reqs (Some e) s" and fl: "flags_ok s" by (simp_all add: inv_def)
  from env have sf: "source_fault s = Some e" by (simp add: env_ok_def)
  with fl show p: "producer s \<noteq> Finished" by (auto simp: flags_ok_def)
  with fl show a: "\<not> all_requests_handled s" by (simp add: flags_ok_def)
  with fl show "consumer s \<noteq> Returned" by (auto simp: flags_ok_def)
qed

lemma never_throws_on_success:
  assumes "inv reqs fault h s" "ids_ok h s" "\<forall>r \<in> set reqs. succeeds h r"
  shows "consumer s \<noteq> Thrown x"
proof
  assume t: "consumer s = Thrown x"
  from assms(1) have env: "env_ok reqs fault s" by (simp add: inv_def)
  then have sub: "set (dispatched s) \<subseteq> set reqs" by (auto simp: env_ok_def)
  from t assms(2) have ne: "consumed s \<noteq> []" and f: "h (snd (last (consumed s))) = Failure x"
    by (simp_all add: ids_ok_def)
  from ne have "last (consumed s) \<in> set (consumed s)" by simp
  then have "snd (last (consumed s)) \<in> set (dispatched s)"
    using inv_consumed_futures [OF assms(1)] futures_snd by blast
  with sub assms(3) have "succeeds h (snd (last (consumed s)))" by blast
  with f show False by (simp add: succeeds_def)
qed

lemma quiescent_prefetch_fault:
  assumes i: "pinv reqs (Some e) h s"
    and ok: "\<forall>r \<in> set reqs. succeeds h r"
    and q: "enabled_prefetch s = []"
  shows "pc s = Failed e"
proof -
  from i have env: "env_ok reqs (Some e) s" and pa: "part_ok s" and sr: "src_ok s"
    and yi: "pyield_ok h s" by (simp_all add: pinv_def)
  from env have sf: "source_fault s = Some e" and sub: "set (dispatched s) \<subseteq> set reqs"
    by (auto simp: env_ok_def)
  from q have ev: "pc_events (pc s) (completed s) = []" and fl: "in_flight s = []"
    by (simp_all add: enabled_prefetch_def)
  have good: "\<forall>f \<in> set (consumed s). succeeds h (snd f)"
    using part_ok_sets(2) [OF pa] futures_snd sub ok by blast
  have ns: "pc s \<noteq> Stopped"
  proof
    assume "pc s = Stopped"
    with sr have "is_req_empty s" by (simp add: src_ok_def)
    with sr sf show False by (simp add: src_ok_def)
  qed
  from pc_events_Nil [OF ev] ns quiescent_not_waiting [OF i fl]
  have "failed (pc s)" by blast
  then obtain x where x: "pc s = Failed x" by (cases "pc s") simp_all
  have "x = e"
  proof (rule ccontr)
    assume "x \<noteq> e"
    with yi x sf have ne: "consumed s \<noteq> []" and f: "h (snd (last (consumed s))) = Failure x"
      by (auto simp: pyield_ok_def)
    from ne have "last (consumed s) \<in> set (consumed s)" by simp
    with good have "succeeds h (snd (last (consumed s)))" by blast
    with f show False by (simp add: succeeds_def)
  qed
  with x show ?thesis by simp
qed

text \<open>
  C4. The request iterator raises \<open>e\<close> after its requests; identifiers are distinct and
  the operations succeed. In \<^verbatim>\<open>_stream_requests\<close> the exception ends the producer task,
  which nothing awaits: the generator never returns and never raises, and once nothing
  can happen any more (such a state is always reached) it is suspended at
  \<^verbatim>\<open>await asyncio.wait\<close> for ever, with the exception held by the task. In
  \<^verbatim>\<open>_stream_requests_with_prefetch\<close>, which awaits \<^verbatim>\<open>iterate_requests\<close> itself, the
  execution ends with the exception \<open>e\<close> raised to the caller.
\<close>

theorem producer_fault_hangs_unbounded_engine:
  assumes "distinct (map request_id reqs)"
    and "\<forall>r \<in> set reqs. succeeds h r"
    and "run h evs (start reqs (Some e)) = Some s"
    and "run_prefetch N h evs' (start_prefetch reqs (Some e)) = Some t"
  shows "consumer s \<noteq> Returned \<and> (\<forall>x. consumer s \<noteq> Thrown x)
     \<and> (\<exists>evs2 s2. run h (evs @ evs2) (start reqs (Some e)) = Some s2 \<and> enabled s2 = [])
     \<and> (enabled s = [] \<longrightarrow> consumer s = Waiting \<and> producer s = Crashed e)
     \<and> (enabled_prefetch t = [] \<longrightarrow> pc t = Failed e)"
proof -
  note i = inv_reachable [OF assms(3)]
  note nr = never_returns_on_fault [OF i]
  note nt = never_throws_on_success [OF i ids_ok_reachable [OF assms(1,3)] assms(2)]
  from quiescence [of h s] assms(3)
  have ex: "\<exists>evs2 s2. run h (evs @ evs2) (start reqs (Some e)) = Some s2 \<and> enabled s2 = []"
    by (auto simp: run_append)
  have "consumer s = Waiting \<and> producer s = Crashed e" if q: "enabled s = []"
  proof -
    from enabled_Nil(5) [OF q] nr(3) nt have w: "consumer s = Waiting"
      by (cases "consumer s") auto
    from i have env: "env_ok reqs (Some e) s" and fl: "flags_ok s" by (simp_all add: inv_def)
    from enabled_Nil(1) [OF q] nr(1) obtain x where x: "producer s = Crashed x"
      by (cases "producer s") auto
    with fl env have "x = e" by (simp add: flags_ok_def env_ok_def)
    with w x show ?thesis by simp
  qed
  moreover have "pc t = Failed e" if q: "enabled_prefetch t = []"
    using quiescent_prefetch_fault [OF pinv_reachable [OF assms(4)] assms(2) q] .
  ultimately show ?thesis using nr(3) nt ex by blast
qed

text \<open>One request and then the exception: without prefetching, and with window size 1.\<close>

theorem producer_fault_hangs_unbounded_engine_witness:
  "distinct (map request_id [req 1 5]) \<and> succeeds echo (req 1 5)
   \<and> (\<exists>s. run echo [Pull, Complete 0, Get, Wake, Resume, Pull]
            (start [req 1 5] (Some (Raised ''boom''))) = Some s
          \<and> enabled s = [] \<and> consumer s = Waiting \<and> producer s = Crashed (Raised ''boom'')
          \<and> yielded s = [5])
   \<and> (\<exists>t. run_prefetch 1 echo [Pull, Complete 0, Wake, Resume, Pull]
            (start_prefetch [req 1 5] (Some (Raised ''boom''))) = Some t
          \<and> enabled_prefetch t = [] \<and> pc t = Failed (Raised ''boom'') \<and> yielded t = [5])"
proof -
  let ?reqs = "[req 1 5]"
  let ?f = "Some (Raised ''boom'')"
  let ?evs = "[Pull, Complete 0, Get, Wake, Resume, Pull]"
  let ?evs' = "[Pull, Complete 0, Wake, Resume, Pull]"
  have d: "distinct (map request_id ?reqs)" by (simp add: req_def)
  have a: "\<forall>r \<in> set ?reqs. succeeds echo r" by (simp add: req_def echo_def succeeds_def)
  have "\<exists>s. run echo ?evs (start ?reqs ?f) = Some s \<and> enabled s = [] \<and> yielded s = [5]"
    by (simp add: engine_defs)
  then obtain s where r: "run echo ?evs (start ?reqs ?f) = Some s" and q: "enabled s = []"
    and y: "yielded s = [5]" by blast
  have "\<exists>t. run_prefetch 1 echo ?evs' (start_prefetch ?reqs ?f) = Some t
      \<and> enabled_prefetch t = [] \<and> yielded t = [5]"
    by (simp add: prefetch_defs)
  then obtain t where rt: "run_prefetch 1 echo ?evs' (start_prefetch ?reqs ?f) = Some t"
    and qt: "enabled_prefetch t = []" and yt: "yielded t = [5]" by blast
  from producer_fault_hangs_unbounded_engine [OF d a r rt] q qt
  have "consumer s = Waiting \<and> producer s = Crashed (Raised ''boom'')"
    and "pc t = Failed (Raised ''boom'')" by blast+
  with d a r q y rt qt yt show ?thesis by auto
qed






lemma consumed_completed_step:
  assumes "set (consumed s) \<subseteq> set (completed s)" "step_prefetch N h ev s = Some s'"
  shows "set (consumed s') \<subseteq> set (completed s')"
proof (cases ev)
  case Pull
  with assms have "pull N s = Some s'" by (simp add: step_prefetch_def)
  then show ?thesis using assms(1) by (cases rule: pull_cases) simp_all
next
  case (Complete i)
  with assms have "finished i s = Some s'" by (simp add: step_prefetch_def)
  then show ?thesis using assms(1) by (cases rule: finished_cases) auto
next
  case Get
  with assms show ?thesis by (simp add: step_prefetch_def)
next
  case Wake
  with assms have "deliver h s = Some s'" by (simp add: step_prefetch_def)
  then show ?thesis
  proof (cases rule: deliver_cases)
    case (short todo f)
    with assms(1) earliest_Some(2) [OF short(2)] show ?thesis by simp
  next
    case (steady todo f)
    with assms(1) earliest_Some(2) [OF steady(2)] show ?thesis by simp
  qed
next
  case Resume
  with assms have "continue s = Some s'" by (simp add: step_prefetch_def)
  then show ?thesis using assms(1) by (cases rule: continue_cases) simp_all
qed

lemma consumed_completed_run:
  assumes "set (consumed s) \<subseteq> set (completed s)" "run_prefetch N h evs s = Some s'"
  shows "set (consumed s') \<subseteq> set (completed s')"
  using assms
proof (induction evs arbitrary: s)
  case Nil
  then show ?case by simp
next
  case (Cons ev evs)
  then obtain s1 where s1: "step_prefetch N h ev s = Some s1"
    and r: "run_prefetch N h evs s1 = Some s'"
    by (auto split: option.splits)
  from Cons.IH [OF consumed_completed_step [OF Cons.prems(1) s1] r] show ?case .
qed

lemma consumed_completed:
  assumes "run_prefetch N h evs (start_prefetch reqs fault) = Some s"
  shows "set (consumed s) \<subseteq> set (completed s)"
  using consumed_completed_run [OF _ assms] by (simp add: start_prefetch_def)

lemma mset_requests:
  assumes "mset fs = mset (futures reqs)"
  shows "mset (map snd fs) = mset reqs"
proof -
  have "mset (map snd fs) = image_mset snd (mset fs)" by simp
  also have "\<dots> = image_mset snd (mset (futures reqs))" by (simp only: assms)
  also have "\<dots> = mset (map snd (futures reqs))" by simp
  finally show ?thesis by (simp only: map_snd_futures)
qed

lemma notifier_only_enqueues:
  assumes "step h (Complete i) s = Some s'"
  shows "\<exists>f. f \<in> set (in_flight s) \<and> fst f = i
     \<and> result_queue s' = result_queue s @ [(request_id (snd f), f)]
     \<and> completed s' = completed s @ [f]"
proof -
  from assms have "complete i s = Some s'" by (simp add: step_def)
  then show ?thesis by (cases rule: complete_cases) auto
qed

text \<open>
  C8, as stated, fails: an execution can end with an outcome that was never consumed.
  With window size 2 and two requests, the second failing and finishing first, the
  exception leaves the generator at the first \<^verbatim>\<open>await r\<close>; the first operation finishes
  afterwards and its outcome is never read.
\<close>

theorem outcome_never_consumed_after_failure:
  "map_option (\<lambda>s. (pc s, map fst (completed s), map fst (consumed s), enabled_prefetch s))
     (run_prefetch 2 echo [Pull, Pull, Complete 1, Wake, Complete 0]
        (start_prefetch [req 1 5, req 2 0] None))
   = Some (Failed (Raised ''failed''), [1, 0], [1], [])"
  by (simp add: prefetch_defs)

text \<open>
  C8 (amended). In every execution of either engine an operation's outcome is consumed
  at most once, and only after the operation has finished: the consumed futures are
  distinct and among the finished ones. It is consumed only by the step in which the
  generator takes the result to yield it: no other step, in particular not the completion
  notifier, changes what was consumed or yielded; the notifier appends the pair of the
  request identifier and the future to the queue. When the iterator does not raise, the
  operations all succeed (and, for the unbounded engine, identifiers are distinct), then
  once nothing can happen any more every request's outcome has been consumed exactly once.
\<close>

theorem outcome_consumed_at_most_once:
  assumes "run h evs (start reqs fault) = Some s"
    and "run_prefetch N h evs' (start_prefetch reqs' fault') = Some t"
  shows "distinct (consumed s) \<and> set (consumed s) \<subseteq> set (completed s)
     \<and> distinct (consumed t) \<and> set (consumed t) \<subseteq> set (completed t)
     \<and> (\<forall>ev s'. step h ev s = Some s' \<and> ev \<noteq> Wake \<longrightarrow>
           consumed s' = consumed s \<and> yielded s' = yielded s)
     \<and> (\<forall>ev t'. step_prefetch N h ev t = Some t' \<and> ev \<noteq> Wake \<longrightarrow>
           consumed t' = consumed t \<and> yielded t' = yielded t)
     \<and> (\<forall>i s'. step h (Complete i) s = Some s' \<longrightarrow>
           (\<exists>f. f \<in> set (in_flight s) \<and> fst f = i
              \<and> result_queue s' = result_queue s @ [(request_id (snd f), f)]
              \<and> completed s' = completed s @ [f]))
     \<and> (distinct (map request_id reqs) \<and> (\<forall>r \<in> set reqs. succeeds h r) \<and> fault = None
          \<and> enabled s = [] \<longrightarrow> mset (map snd (consumed s)) = mset reqs)
     \<and> ((\<forall>r \<in> set reqs'. succeeds h r) \<and> fault' = None \<and> enabled_prefetch t = []
          \<longrightarrow> mset (map snd (consumed t)) = mset reqs')"
proof -
  note i = inv_reachable [OF assms(1)]
  note j = pinv_reachable [OF assms(2)]
  from i have "distinct (completed s)" using env_ok_distinct [of reqs fault s] by (simp add: inv_def)
  with inv_consumed_prefix [OF i]
  have a: "distinct (consumed s)" "set (consumed s) \<subseteq> set (completed s)"
    by (auto simp: prefix_def)
  from j have pa: "part_ok t" by (simp add: pinv_def)
  note b = part_ok_sets(1) [OF pa] consumed_completed [OF assms(2)]
  have c: "consumed s' = consumed s \<and> yielded s' = yielded s"
    if "step h ev s = Some s' \<and> ev \<noteq> Wake" for ev s'
    using quiet_step [of h ev s s'] that by simp
  have d: "consumed t' = consumed t \<and> yielded t' = yielded t"
    if "step_prefetch N h ev t = Some t' \<and> ev \<noteq> Wake" for ev t'
    using quiet_step_prefetch [of N h ev t t'] that by simp
  have e: "mset (map snd (consumed s)) = mset reqs"
    if "distinct (map request_id reqs) \<and> (\<forall>r \<in> set reqs. succeeds h r) \<and> fault = None
          \<and> enabled s = []"
  proof -
    from that have dd: "distinct (map request_id reqs)" and ok: "\<forall>r \<in> set reqs. succeeds h r"
      and f: "fault = None" and q: "enabled s = []" by simp_all
    from quiescent_all_yielded [OF i [unfolded f] ids_ok_reachable [OF dd assms(1)] dd ok q]
    show ?thesis using mset_requests by blast
  qed
  have g: "mset (map snd (consumed t)) = mset reqs'"
    if "(\<forall>r \<in> set reqs'. succeeds h r) \<and> fault' = None \<and> enabled_prefetch t = []"
  proof -
    from that have ok: "\<forall>r \<in> set reqs'. succeeds h r"
      and f: "fault' = None" and q: "enabled_prefetch t = []" by simp_all
    from quiescent_prefetch [OF j [unfolded f] ok q]
    show ?thesis using mset_requests by blast
  qed
  from a b c d e g notifier_only_enqueues [of h _ s] show ?thesis by blast
qed

text \<open>
  Both engines on two requests, first with the first future pending (the notifier can
  run), then run to the end.
\<close>

theorem outcome_consumed_at_most_once_witness:
  "(\<exists>s s' t t'. run echo [Pull, Pull] (start [req 1 5, req 2 6] None) = Some s
        \<and> step echo (Complete 0) s = Some s' \<and> Complete 0 \<noteq> Wake
        \<and> consumed s' = consumed s
        \<and> result_queue s' = result_queue s @ [(1, (0, req 1 5))]
        \<and> run_prefetch 2 echo [Pull, Pull] (start_prefetch [req 1 5, req 2 6] None) = Some t
        \<and> step_prefetch 2 echo (Complete 0) t = Some t' \<and> consumed t' = consumed t)
   \<and> distinct (map request_id [req 1 5, req 2 6])
   \<and> succeeds echo (req 1 5) \<and> succeeds echo (req 2 6)
   \<and> (\<exists>s t. run echo [Pull, Pull, Complete 1, Pull, Get, Wake, Complete 0, Resume, Get, Wake, Resume]
              (start [req 1 5, req 2 6] None) = Some s
        \<and> enabled s = [] \<and> mset (map snd (consumed s)) = mset [req 1 5, req 2 6]
        \<and> distinct (consumed s)
        \<and> run_prefetch 2 echo [Pull, Pull, Complete 1, Complete 0, Wake, Resume, Pull, Wake, Resume]
              (start_prefetch [req 1 5, req 2 6] None) = Some t
        \<and> enabled_prefetch t = [] \<and> mset (map snd (consumed t)) = mset [req 1 5, req 2 6]
        \<and> distinct (consumed t))"
proof -
  let ?reqs = "[req 1 5, req 2 6]"
  let ?evs = "[Pull, Pull, Complete 1, Pull, Get, Wake, Complete 0, Resume, Get, Wake, Resume]"
  let ?evs' = "[Pull, Pull, Complete 1, Complete 0, Wake, Resume, Pull, Wake, Resume]"
  have dd: "distinct (map request_id ?reqs)" by (simp add: req_def)
  have ok: "\<forall>r \<in> set ?reqs. succeeds echo r" by (simp add: req_def echo_def succeeds_def)
  have ok2: "succeeds echo (req 1 5)" "succeeds echo (req 2 6)" using ok by simp_all
  have nw: "Complete 0 \<noteq> Wake" by simp
  have "\<exists>s s'. run echo [Pull, Pull] (start ?reqs None) = Some s
      \<and> step echo (Complete 0) s = Some s'
      \<and> result_queue s' = result_queue s @ [(1, (0, req 1 5))]"
    by (simp add: engine_defs)
  then obtain s s' where m: "run echo [Pull, Pull] (start ?reqs None) = Some s
      \<and> step echo (Complete 0) s = Some s'
      \<and> result_queue s' = result_queue s @ [(1, (0, req 1 5))]" by (elim exE)
  note r = m [THEN conjunct1] and st = m [THEN conjunct2, THEN conjunct1]
    and rq = m [THEN conjunct2, THEN conjunct2]
  have "\<exists>t t'. run_prefetch 2 echo [Pull, Pull] (start_prefetch ?reqs None) = Some t
      \<and> step_prefetch 2 echo (Complete 0) t = Some t'"
    by (simp add: prefetch_defs)
  then obtain t t' where mt: "run_prefetch 2 echo [Pull, Pull] (start_prefetch ?reqs None) = Some t
      \<and> step_prefetch 2 echo (Complete 0) t = Some t'" by (elim exE)
  note rt = mt [THEN conjunct1] and stt = mt [THEN conjunct2]
  note th = outcome_consumed_at_most_once [OF r rt]
  from th st nw have c: "consumed s' = consumed s" by blast
  from th stt nw have ct: "consumed t' = consumed t" by blast
  have first: "\<exists>s s' t t'. run echo [Pull, Pull] (start ?reqs None) = Some s
        \<and> step echo (Complete 0) s = Some s' \<and> Complete 0 \<noteq> Wake
        \<and> consumed s' = consumed s
        \<and> result_queue s' = result_queue s @ [(1, (0, req 1 5))]
        \<and> run_prefetch 2 echo [Pull, Pull] (start_prefetch ?reqs None) = Some t
        \<and> step_prefetch 2 echo (Complete 0) t = Some t' \<and> consumed t' = consumed t"
    using r st nw c rq rt stt ct
    by (intro exI [of _ s] exI [of _ s'] exI [of _ t] exI [of _ t'] conjI) assumption+
  have "\<exists>u. run echo ?evs (start ?reqs None) = Some u \<and> enabled u = []"
    by (simp add: engine_defs)
  then obtain u where mu: "run echo ?evs (start ?reqs None) = Some u \<and> enabled u = []" ..
  note ru = mu [THEN conjunct1] and qu = mu [THEN conjunct2]
  have "\<exists>v. run_prefetch 2 echo ?evs' (start_prefetch ?reqs None) = Some v
      \<and> enabled_prefetch v = []"
    by (simp add: prefetch_defs)
  then obtain v where mv: "run_prefetch 2 echo ?evs' (start_prefetch ?reqs None) = Some v
      \<and> enabled_prefetch v = []" ..
  note rv = mv [THEN conjunct1] and qv = mv [THEN conjunct2]
  note th2 = outcome_consumed_at_most_once [OF ru rv]
  from th2 dd ok qu have cu: "mset (map snd (consumed u)) = mset ?reqs" by blast
  from th2 ok qv have cv: "mset (map snd (consumed v)) = mset ?reqs" by blast
  from th2 have du: "distinct (consumed u)" and dv: "distinct (consumed v)" by blast+
  have second: "\<exists>s t. run echo ?evs (start ?reqs None) = Some s
        \<and> enabled s = [] \<and> mset (map snd (consumed s)) = mset ?reqs
        \<and> distinct (consumed s)
        \<and> run_prefetch 2 echo ?evs' (start_prefetch ?reqs None) = Some t
        \<and> enabled_prefetch t = [] \<and> mset (map snd (consumed t)) = mset ?reqs
        \<and> distinct (consumed t)"
    using ru qu cu du rv qv cv dv
    by (intro exI [of _ u] exI [of _ v] conjI) assumption+
  from first dd ok2 second show ?thesis by (intro conjI)
qed

end
